theory Spec2Isabelle
  imports Complex_Main
begin

section \<open>The seismic Bayesian network of model.py\<close>

text \<open>
  Conventions of the embedding.
  \<^item> Python floats are read as exact rationals (\<open>0.6\<close> is \<open>6/10\<close>); every statement
    "within 1e-6" is proved through the exact value.
  \<^item> A Python \<open>str\<close> is a list of code points. The one non-ASCII letter of the source,
    U+00E1 in the state label of \<open>patrones\<close>, is the character \<open>CHR 0xE1\<close>.
  \<^item> A Python \<open>dict\<close> with literal keys is an association list read with \<open>map_of\<close>;
    a missing key raises \<open>KeyError\<close>, a division by zero \<open>ZeroDivisionError\<close>.
\<close>

datatype py_error = KeyError | ZeroDivisionError

subsection \<open>Nodes and edges (model.py, lines 14-38)\<close>

definition nodes :: "string list" where
  "nodes = [''magnitud_historica'', ''profundidad_sismica'', ''tiempo_ultimo_sismo'',
            ''actividad_falla'', ''patron_sismico'', ''intensidad_historica'',
            ''frecuencia_mensual'', ''probabilidad_sismo'']"

definition edges :: "(string \<times> string) list" where
  "edges = [(''magnitud_historica'', ''intensidad_historica''),
            (''profundidad_sismica'', ''intensidad_historica''),
            (''actividad_falla'', ''patron_sismico''),
            (''actividad_falla'', ''frecuencia_mensual''),
            (''magnitud_historica'', ''probabilidad_sismo''),
            (''profundidad_sismica'', ''probabilidad_sismo''),
            (''tiempo_ultimo_sismo'', ''probabilidad_sismo''),
            (''actividad_falla'', ''probabilidad_sismo''),
            (''patron_sismico'', ''probabilidad_sismo''),
            (''intensidad_historica'', ''probabilidad_sismo''),
            (''frecuencia_mensual'', ''probabilidad_sismo'')]"

subsection \<open>The weighted-adjustment function (model.py, lines 41-77)\<close>

definition esporadico :: string where
  "esporadico = ''espor'' @ [CHR 0xE1] @ ''dico''"

definition prob_base :: "rat list" where
  "prob_base = [0.6, 0.3, 0.1]"

definition factores :: "(string \<times> (string \<times> rat list) list) list" where
  "factores =
    [(''magnitud'', [(''baja'', [0.1, -0.05, -0.05]), (''media'', [0, 0, 0]),
                     (''alta'', [-0.2, 0, 0.2]), (''desconocida'', [0, 0, 0])]),
     (''profundidad'', [(''superficial'', [-0.1, 0, 0.1]), (''intermedia'', [0, 0, 0]),
                        (''profunda'', [0.1, 0, -0.1]), (''desconocida'', [0, 0, 0])]),
     (''tiempo'', [(''reciente'', [-0.1, 0, 0.1]), (''medio'', [0, 0, 0]),
                   (''lejano'', [0.1, 0, -0.1]), (''desconocido'', [0, 0, 0])]),
     (''falla'', [(''baja'', [0.1, 0, -0.1]), (''media'', [0, 0, 0]),
                  (''alta'', [-0.15, 0, 0.15])]),
     (''patron'', [(esporadico, [0.1, 0, -0.1]), (''regular'', [0, 0, 0]),
                   (''frecuente'', [-0.15, 0, 0.15]), (''desconocido'', [0, 0, 0])]),
     (''intensidad'', [(''baja'', [0.1, 0, -0.1]), (''media'', [0, 0, 0]),
                       (''alta'', [-0.15, 0, 0.15]), (''desconocida'', [0, 0, 0])]),
     (''frecuencia'', [(''baja'', [0.1, 0, -0.1]), (''media'', [0, 0, 0]),
                       (''alta'', [-0.15, 0, 0.15]), (''desconocida'', [0, 0, 0])])]"

text \<open>\<open>d[k]\<close> on a dictionary.\<close>

definition getitem :: "('k \<times> 'v) list \<Rightarrow> 'k \<Rightarrow> py_error + 'v" where
  "getitem d k = (case map_of d k of None \<Rightarrow> Inl KeyError | Some v \<Rightarrow> Inr v)"

text \<open>
  One line \<open>ajuste = [x + y for x, y in zip(ajuste, factores[nombre][estado])]\<close>.
\<close>

definition aplicar :: "string \<Rightarrow> string \<Rightarrow> rat list \<Rightarrow> py_error + rat list" where
  "aplicar nombre estado ajuste =
     (case getitem factores nombre of
        Inl e \<Rightarrow> Inl e
      | Inr tabla \<Rightarrow>
          (case getitem tabla estado of
             Inl e \<Rightarrow> Inl e
           | Inr ys \<Rightarrow> Inr (map (\<lambda>(x, y). x + y) (zip ajuste ys))))"

definition bind_err :: "'e + 'a \<Rightarrow> ('a \<Rightarrow> 'e + 'b) \<Rightarrow> 'e + 'b" where
  "bind_err m f = (case m of Inl e \<Rightarrow> Inl e | Inr x \<Rightarrow> f x)"

text \<open>The local \<open>ajuste\<close> after the seven adjustment lines (lines 61-68).\<close>

definition ajuste_final ::
  "string \<Rightarrow> string \<Rightarrow> string \<Rightarrow> string \<Rightarrow> string \<Rightarrow> string \<Rightarrow> string \<Rightarrow> py_error + rat list"
where
  "ajuste_final magnitud profundidad tiempo falla patron intensidad frecuencia =
     bind_err (aplicar ''magnitud'' magnitud [0, 0, 0]) (\<lambda>a1.
     bind_err (aplicar ''profundidad'' profundidad a1) (\<lambda>a2.
     bind_err (aplicar ''tiempo'' tiempo a2) (\<lambda>a3.
     bind_err (aplicar ''falla'' falla a3) (\<lambda>a4.
     bind_err (aplicar ''patron'' patron a4) (\<lambda>a5.
     bind_err (aplicar ''intensidad'' intensidad a5) (\<lambda>a6.
     aplicar ''frecuencia'' frecuencia a6))))))"

text \<open>The local \<open>probs\<close> of line 71: base plus adjustment, clamped to \<open>[0, 1]\<close>.\<close>

definition probs_recortadas :: "rat list \<Rightarrow> rat list" where
  "probs_recortadas ajuste = map (\<lambda>(p, a). max 0 (min 1 (p + a))) (zip prob_base ajuste)"

definition calcular_probabilidades ::
  "string \<Rightarrow> string \<Rightarrow> string \<Rightarrow> string \<Rightarrow> string \<Rightarrow> string \<Rightarrow> string \<Rightarrow> py_error + rat list"
where
  "calcular_probabilidades magnitud profundidad tiempo falla patron intensidad frecuencia =
     bind_err (ajuste_final magnitud profundidad tiempo falla patron intensidad frecuencia)
       (\<lambda>ajuste.
          let probs = probs_recortadas ajuste;
              suma = sum_list probs
          in if suma = 0 then Inl ZeroDivisionError
             else Inr (map (\<lambda>p. p / suma) probs))"

subsection \<open>State lists and the enumeration of all combinations (lines 80-95)\<close>

definition magnitudes :: "string list" where
  "magnitudes = [''baja'', ''media'', ''alta'', ''desconocida'']"

definition profundidades :: "string list" where
  "profundidades = [''superficial'', ''intermedia'', ''profunda'', ''desconocida'']"

definition tiempos :: "string list" where
  "tiempos = [''reciente'', ''medio'', ''lejano'', ''desconocido'']"

definition fallas :: "string list" where
  "fallas = [''baja'', ''media'', ''alta'']"

definition patrones :: "string list" where
  "patrones = [esporadico, ''regular'', ''frecuente'', ''desconocido'']"

definition intensidades :: "string list" where
  "intensidades = [''baja'', ''media'', ''alta'', ''desconocida'']"

definition frecuencias :: "string list" where
  "frecuencias = [''baja'', ''media'', ''alta'', ''desconocida'']"

text \<open>
  \<open>itertools.product\<close> is \<^const>\<open>product_lists\<close>: the last list varies fastest.
  \<open>calcular_probabilidades(*comb)\<close> unpacks a 7-tuple.
\<close>

definition state_lists :: "string list list" where
  "state_lists = [magnitudes, profundidades, tiempos, fallas, patrones, intensidades, frecuencias]"

fun calcular_comb :: "string list \<Rightarrow> py_error + rat list" where
  "calcular_comb [m, p, t, f, pa, i, fr] = calcular_probabilidades m p t f pa i fr"
| "calcular_comb _ = Inl KeyError"

text \<open>The loop \<open>for comb in product(...): full_probs.append(...)\<close>: the first raise aborts it.\<close>

fun collect :: "('a \<Rightarrow> 'e + 'b) \<Rightarrow> 'a list \<Rightarrow> 'e + 'b list" where
  "collect f [] = Inr []"
| "collect f (x # xs) =
     (case f x of
        Inl e \<Rightarrow> Inl e
      | Inr y \<Rightarrow> (case collect f xs of Inl e \<Rightarrow> Inl e | Inr ys \<Rightarrow> Inr (y # ys)))"

definition full_probs :: "py_error + rat list list" where
  "full_probs = collect calcular_comb (product_lists state_lists)"

text \<open>\<open>list(map(list, zip(*rows)))\<close>: as many columns as the shortest row has.\<close>

definition zip_star :: "'a list list \<Rightarrow> 'a list list" where
  "zip_star rows =
     (case rows of
        [] \<Rightarrow> []
      | _ # _ \<Rightarrow> map (\<lambda>i. map (\<lambda>r. r ! i) rows) [0..<min_list (map length rows)])"

definition full_probs_transposed :: "py_error + rat list list" where
  "full_probs_transposed = (case full_probs of Inl e \<Rightarrow> Inl e | Inr rows \<Rightarrow> Inr (zip_star rows))"

subsection \<open>The conditional probability tables (lines 98-190)\<close>

text \<open>
  A \<open>TabularCPD\<close> as the source constructs it: \<open>cpd_values\<close> (its \<open>values\<close>) has one row per state of
  \<open>variable\<close> and one column per combination of the states of \<open>evidence\<close>, the
  columns numbered in mixed radix over \<open>evidence_card\<close> with the first parent slowest.
\<close>

record tabular_cpd =
  variable :: string
  variable_card :: nat
  cpd_values :: "rat list list"
  evidence :: "string list"
  evidence_card :: "nat list"
  state_names :: "(string \<times> string list) list"

definition cpd_magnitud :: tabular_cpd where
  "cpd_magnitud = \<lparr>variable = ''magnitud_historica'', variable_card = 4,
     cpd_values = [[0.3], [0.4], [0.2], [0.1]], evidence = [], evidence_card = [],
     state_names = [(''magnitud_historica'', magnitudes)]\<rparr>"

definition cpd_profundidad :: tabular_cpd where
  "cpd_profundidad = \<lparr>variable = ''profundidad_sismica'', variable_card = 4,
     cpd_values = [[0.35], [0.35], [0.2], [0.1]], evidence = [], evidence_card = [],
     state_names = [(''profundidad_sismica'', profundidades)]\<rparr>"

definition cpd_tiempo :: tabular_cpd where
  "cpd_tiempo = \<lparr>variable = ''tiempo_ultimo_sismo'', variable_card = 4,
     cpd_values = [[0.3], [0.4], [0.2], [0.1]], evidence = [], evidence_card = [],
     state_names = [(''tiempo_ultimo_sismo'', tiempos)]\<rparr>"

definition cpd_falla :: tabular_cpd where
  "cpd_falla = \<lparr>variable = ''actividad_falla'', variable_card = 3,
     cpd_values = [[0.2], [0.5], [0.3]], evidence = [], evidence_card = [],
     state_names = [(''actividad_falla'', fallas)]\<rparr>"

definition cpd_patron :: tabular_cpd where
  "cpd_patron = \<lparr>variable = ''patron_sismico'', variable_card = 4,
     cpd_values = [[0.6, 0.3, 0.1],
               [0.3, 0.4, 0.2],
               [0.1, 0.2, 0.4],
               [0.0, 0.1, 0.3]],
     evidence = [''actividad_falla''], evidence_card = [3],
     state_names = [(''patron_sismico'', patrones), (''actividad_falla'', fallas)]\<rparr>"

definition cpd_intensidad :: tabular_cpd where
  "cpd_intensidad = \<lparr>variable = ''intensidad_historica'', variable_card = 4,
     cpd_values =
       [[0.7, 0.6, 0.5, 0.4, 0.5, 0.4, 0.3, 0.2, 0.3, 0.2, 0.1, 0.1, 0.4, 0.3, 0.2, 0.1],
        [0.2, 0.3, 0.3, 0.3, 0.3, 0.4, 0.4, 0.3, 0.4, 0.4, 0.3, 0.2, 0.3, 0.4, 0.3, 0.2],
        [0.1, 0.1, 0.2, 0.2, 0.2, 0.2, 0.3, 0.3, 0.3, 0.4, 0.5, 0.4, 0.2, 0.2, 0.3, 0.3],
        [0.0, 0.0, 0.0, 0.1, 0.0, 0.0, 0.0, 0.2, 0.0, 0.0, 0.1, 0.3, 0.1, 0.1, 0.2, 0.4]],
     evidence = [''magnitud_historica'', ''profundidad_sismica''], evidence_card = [4, 4],
     state_names = [(''intensidad_historica'', intensidades), (''magnitud_historica'', magnitudes),
                    (''profundidad_sismica'', profundidades)]\<rparr>"

definition cpd_frecuencia :: tabular_cpd where
  "cpd_frecuencia = \<lparr>variable = ''frecuencia_mensual'', variable_card = 4,
     cpd_values = [[0.7, 0.3, 0.1],
               [0.2, 0.4, 0.2],
               [0.1, 0.2, 0.4],
               [0.0, 0.1, 0.3]],
     evidence = [''actividad_falla''], evidence_card = [3],
     state_names = [(''frecuencia_mensual'', frecuencias), (''actividad_falla'', fallas)]\<rparr>"

text \<open>The outcome table takes \<open>full_probs_transposed\<close> as its values.\<close>

definition cpd_probabilidad :: "rat list list \<Rightarrow> tabular_cpd" where
  "cpd_probabilidad vs = \<lparr>variable = ''probabilidad_sismo'', variable_card = 3,
     cpd_values = vs,
     evidence = [''magnitud_historica'', ''profundidad_sismica'', ''tiempo_ultimo_sismo'',
                 ''actividad_falla'', ''patron_sismico'', ''intensidad_historica'',
                 ''frecuencia_mensual''],
     evidence_card = [4, 4, 4, 3, 4, 4, 4],
     state_names = [(''probabilidad_sismo'', [''baja'', ''media'', ''alta'']),
                    (''magnitud_historica'', magnitudes),
                    (''profundidad_sismica'', profundidades),
                    (''tiempo_ultimo_sismo'', tiempos),
                    (''actividad_falla'', fallas),
                    (''patron_sismico'', patrones),
                    (''intensidad_historica'', intensidades),
                    (''frecuencia_mensual'', frecuencias)]\<rparr>"

text \<open>\<open>model.add_cpds(...)\<close>: the eight tables, or the exception that aborted the module.\<close>

definition model_cpds :: "py_error + tabular_cpd list" where
  "model_cpds =
     (case full_probs_transposed of
        Inl e \<Rightarrow> Inl e
      | Inr vs \<Rightarrow> Inr [cpd_magnitud, cpd_profundidad, cpd_tiempo, cpd_falla,
                      cpd_patron, cpd_intensidad, cpd_frecuencia, cpd_probabilidad vs])"

text \<open>
  Column \<open>j\<close> of a table (the slice over the target's states for one parent assignment),
  and the number of columns the declared parent cardinalities call for.
\<close>

definition column :: "tabular_cpd \<Rightarrow> nat \<Rightarrow> rat list" where
  "column c j = map (\<lambda>row. row ! j) (cpd_values c)"

definition n_columns :: "tabular_cpd \<Rightarrow> nat" where
  "n_columns c = prod_list (evidence_card c)"

text \<open>Mixed-radix number of a list of digits, the first digit slowest.\<close>

fun radix :: "nat list \<Rightarrow> nat list \<Rightarrow> nat" where
  "radix (c # cs) (i # is) = i * prod_list cs + radix cs is"
| "radix _ _ = 0"

text \<open>The rows the loop appends when no call raises, one per combination.\<close>

definition probs_rows :: "rat list list" where
  "probs_rows = map (\<lambda>comb. projr (calcular_comb comb)) (product_lists state_lists)"

text \<open>
  The normalisation invariant of a table: it has one row per state and one entry per
  column in each row, and in every column the entries are non-negative and sum to 1
  within \<open>1e-6\<close>.
\<close>

definition cpd_normalized :: "tabular_cpd \<Rightarrow> bool" where
  "cpd_normalized c \<longleftrightarrow>
     length (cpd_values c) = variable_card c \<and>
     (\<forall>row\<in>set (cpd_values c). length row = n_columns c) \<and>
     (\<forall>j<n_columns c. (\<forall>x\<in>set (column c j). 0 \<le> x) \<and> \<bar>sum_list (column c j) - 1\<bar> \<le> 1 / 10 ^ 6)"

section \<open>The inference core of the specification\<close>

text \<open>
  model.py delegates network validation and inference to an external library; the
  specification describes the core that replaces it (sections 3 and 4). The definitions of
  this section follow the specification's words.
\<close>

datatype error =
    VariableNotInScope | UnknownState | DegenerateFactor | CyclicGraph
  | UnknownVariable | EvidenceQueryOverlap | ZeroProbabilityEvidence

subsection \<open>Topological sort (section 4.4, step 2)\<close>

text \<open>
  Modelled from the spec: the topological sort of \<open>buildNetwork\<close>, which the source leaves
  to the library. While nodes remain, the first remaining node with no edge from a remaining
  node is output and removed; if there is none, the graph has a cycle.
\<close>

definition is_source :: "(string \<times> string) list \<Rightarrow> string list \<Rightarrow> string \<Rightarrow> bool" where
  "is_source es remaining v = list_all (\<lambda>(a, b). b \<noteq> v \<or> a \<notin> set remaining) es"

function topological_sort :: "(string \<times> string) list \<Rightarrow> string list \<Rightarrow> error + string list" where
  "topological_sort es remaining =
     (if remaining = [] then Inr []
      else case find (is_source es remaining) remaining of
             None \<Rightarrow> Inl CyclicGraph
           | Some v \<Rightarrow>
               (case topological_sort es (removeAll v remaining) of
                  Inl e \<Rightarrow> Inl e
                | Inr rest \<Rightarrow> Inr (v # rest)))"
  by pat_completeness auto
termination
proof (relation "measure (\<lambda>(es, remaining). length remaining)")
  show "wf (measure (\<lambda>(es, remaining). length remaining))" by simp
next
  fix es :: "(string \<times> string) list" and remaining :: "string list" and v
  assume "find (is_source es remaining) remaining = Some v"
  then have "v \<in> set remaining" by (auto simp: find_Some_iff)
  then have "length (removeAll v remaining) < length remaining"
    by (induction remaining) (auto simp: less_Suc_eq_le length_removeAll_less_eq)
  then show "((es, removeAll v remaining), (es, remaining)) \<in> measure (\<lambda>(es, remaining). length remaining)"
    by simp
qed

text \<open>Position of every node in an order, and what makes the order topological.\<close>

fun index_of :: "'a list \<Rightarrow> 'a \<Rightarrow> nat option" where
  "index_of [] x = None"
| "index_of (y # ys) x = (if x = y then Some 0 else map_option Suc (index_of ys x))"

definition topological_order :: "(string \<times> string) list \<Rightarrow> string list \<Rightarrow> bool" where
  "topological_order es order \<longleftrightarrow>
     distinct order \<and>
     list_all (\<lambda>(a, b). case (index_of order a, index_of order b) of
                           (Some i, Some j) \<Rightarrow> i < j
                         | _ \<Rightarrow> False) es"

subsection \<open>Variables and factors (sections 3 and 4.2)\<close>

text \<open>
  Modelled from the spec: the Factor type and its four operations, absent from the source.
  A variable is its identifier with its ordered states. A factor is a scope of variables and
  a dense table of values, indexed in mixed radix over the cardinalities of the scope with
  the first variable slowest. An assignment gives every identifier the index of a state.
\<close>

type_synonym rvar = "string \<times> string list"

type_synonym assignment = "string \<Rightarrow> nat"

record factor =
  scope :: "rvar list"
  vals :: "rat list"

definition names :: "rvar list \<Rightarrow> string list" where
  "names sc = map fst sc"

definition cards :: "rvar list \<Rightarrow> nat list" where
  "cards sc = map (\<lambda>v. length (snd v)) sc"

definition digits :: "rvar list \<Rightarrow> assignment \<Rightarrow> nat list" where
  "digits sc \<sigma> = map (\<lambda>v. \<sigma> (fst v)) sc"

text \<open>The entry of a factor at an assignment.\<close>

definition lookup :: "factor \<Rightarrow> assignment \<Rightarrow> rat" where
  "lookup f \<sigma> = vals f ! radix (cards (scope f)) (digits (scope f) \<sigma>)"

text \<open>All joint assignments of a scope, in the order of the table.\<close>

definition assignments :: "rvar list \<Rightarrow> nat list list" where
  "assignments sc = product_lists (map (\<lambda>v. [0..<length (snd v)]) sc)"

definition assignment_of :: "rvar list \<Rightarrow> nat list \<Rightarrow> assignment" where
  "assignment_of sc ds = (\<lambda>x. case map_of (zip (names sc) ds) x of None \<Rightarrow> 0 | Some d \<Rightarrow> d)"

text \<open>The table over a scope whose entry at each joint assignment is given by \<open>g\<close>.\<close>

definition tabulate :: "rvar list \<Rightarrow> (assignment \<Rightarrow> rat) \<Rightarrow> factor" where
  "tabulate sc g = \<lparr>scope = sc, vals = map (\<lambda>ds. g (assignment_of sc ds)) (assignments sc)\<rparr>"

text \<open>
  \<open>product(a, b)\<close>: the scope is \<open>a\<close>'s scope followed by the variables of \<open>b\<close> not yet
  present; each entry is the product of the corresponding entries of \<open>a\<close> and \<open>b\<close>.
\<close>

definition factor_product :: "factor \<Rightarrow> factor \<Rightarrow> factor" where
  "factor_product a b =
     tabulate (scope a @ filter (\<lambda>v. fst v \<notin> set (names (scope a))) (scope b))
       (\<lambda>\<sigma>. lookup a \<sigma> * lookup b \<sigma>)"

text \<open>\<open>marginalize(f, variable)\<close>: sums the variable out.\<close>

definition marginalize :: "factor \<Rightarrow> string \<Rightarrow> error + factor" where
  "marginalize f x =
     (case find (\<lambda>v. fst v = x) (scope f) of
        None \<Rightarrow> Inl VariableNotInScope
      | Some v \<Rightarrow>
          Inr (tabulate (filter (\<lambda>u. fst u \<noteq> x) (scope f))
                 (\<lambda>\<sigma>. sum_list (map (\<lambda>k. lookup f (\<sigma>(x := k))) [0..<length (snd v)]))))"

text \<open>\<open>reduce(f, variable, state)\<close>: the slice where the variable has the state.\<close>

definition reduce :: "factor \<Rightarrow> string \<Rightarrow> string \<Rightarrow> error + factor" where
  "reduce f x s =
     (case find (\<lambda>v. fst v = x) (scope f) of
        None \<Rightarrow> Inl VariableNotInScope
      | Some v \<Rightarrow>
          (case index_of (snd v) s of
             None \<Rightarrow> Inl UnknownState
           | Some k \<Rightarrow>
               Inr (tabulate (filter (\<lambda>u. fst u \<noteq> x) (scope f)) (\<lambda>\<sigma>. lookup f (\<sigma>(x := k))))))"

text \<open>\<open>normalize(f)\<close>: divides by the sum, which must exceed \<open>1e-12\<close>.\<close>

definition normalize_factor :: "factor \<Rightarrow> error + factor" where
  "normalize_factor f =
     (let s = sum_list (vals f)
      in if s \<le> 1 / 10 ^ 12 then Inl DegenerateFactor
         else Inr (f\<lparr>vals := map (\<lambda>p. p / s) (vals f)\<rparr>))"

subsection \<open>Networks (section 3)\<close>

text \<open>
  Modelled from the spec: a network is its variables in declaration order, its edges, and
  one CPD per variable; a CPD is a factor whose scope is the target followed by the parents.
\<close>

record network =
  net_variables :: "rvar list"
  net_edges :: "(string \<times> string) list"
  net_cpds :: "factor list"

text \<open>
  The network of the source. A table becomes a factor over the target followed by the
  parents; row-major flattening of the rows is the mixed-radix order of that scope.
\<close>

definition states_of :: "tabular_cpd \<Rightarrow> string \<Rightarrow> string list" where
  "states_of c n = (case map_of (state_names c) n of None \<Rightarrow> [] | Some ss \<Rightarrow> ss)"

definition cpd_factor :: "tabular_cpd \<Rightarrow> factor" where
  "cpd_factor c =
     \<lparr>scope = map (\<lambda>n. (n, states_of c n)) (variable c # evidence c),
      vals = concat (cpd_values c)\<rparr>"

definition network_of :: "tabular_cpd list \<Rightarrow> network" where
  "network_of cs =
     \<lparr>net_variables = map (\<lambda>c. (variable c, states_of c (variable c))) cs,
      net_edges = edges,
      net_cpds = map cpd_factor cs\<rparr>"

definition model :: "py_error + network" where
  "model = (case model_cpds of Inl e \<Rightarrow> Inl e | Inr cs \<Rightarrow> Inr (network_of cs))"

subsection \<open>Variable elimination (section 4.5)\<close>

text \<open>
  Modelled from the spec: \<open>query\<close>, step by step. Evidence is the mapping in the order of
  its entries; the query variables are a list without repetition. Validation checks, in the
  order of step 1: every variable exists, evidence and query are disjoint, every state is
  declared. The elimination order is the declaration order of the remaining variables, the
  simpler deterministic ordering that step 4 allows for networks of this size.
\<close>

fun product_all :: "factor list \<Rightarrow> factor" where
  "product_all [] = \<lparr>scope = [], vals = [1]\<rparr>"
| "product_all (f # fs) = factor_product f (product_all fs)"

fun reduce_each :: "factor list \<Rightarrow> string \<Rightarrow> string \<Rightarrow> error + factor list" where
  "reduce_each [] x s = Inr []"
| "reduce_each (f # fs) x s =
     (case (if x \<in> set (names (scope f)) then reduce f x s else Inr f) of
        Inl e \<Rightarrow> Inl e
      | Inr g \<Rightarrow> (case reduce_each fs x s of Inl e \<Rightarrow> Inl e | Inr gs \<Rightarrow> Inr (g # gs)))"

fun apply_evidence :: "factor list \<Rightarrow> (string \<times> string) list \<Rightarrow> error + factor list" where
  "apply_evidence fs [] = Inr fs"
| "apply_evidence fs ((x, s) # ev) =
     (case reduce_each fs x s of Inl e \<Rightarrow> Inl e | Inr gs \<Rightarrow> apply_evidence gs ev)"

definition eliminate :: "factor list \<Rightarrow> string \<Rightarrow> error + factor list" where
  "eliminate fs x =
     (case marginalize (product_all (filter (\<lambda>f. x \<in> set (names (scope f))) fs)) x of
        Inl e \<Rightarrow> Inl e
      | Inr g \<Rightarrow> Inr (filter (\<lambda>f. x \<notin> set (names (scope f))) fs @ [g]))"

fun eliminate_all :: "factor list \<Rightarrow> string list \<Rightarrow> error + factor list" where
  "eliminate_all fs [] = Inr fs"
| "eliminate_all fs (x # xs) =
     (case eliminate fs x of Inl e \<Rightarrow> Inl e | Inr gs \<Rightarrow> eliminate_all gs xs)"

definition elimination_order :: "network \<Rightarrow> string list \<Rightarrow> (string \<times> string) list \<Rightarrow> string list" where
  "elimination_order net qs ev =
     filter (\<lambda>x. x \<notin> set qs \<and> x \<notin> set (map fst ev)) (names (net_variables net))"

definition known_variable :: "network \<Rightarrow> string \<Rightarrow> bool" where
  "known_variable net x \<longleftrightarrow> x \<in> set (names (net_variables net))"

definition valid_state :: "network \<Rightarrow> string \<times> string \<Rightarrow> bool" where
  "valid_state net e =
     (case map_of (net_variables net) (fst e) of None \<Rightarrow> False | Some ss \<Rightarrow> snd e \<in> set ss)"

definition query :: "network \<Rightarrow> string list \<Rightarrow> (string \<times> string) list \<Rightarrow> error + factor" where
  "query net qs ev =
     (if \<not> list_all (known_variable net) (qs @ map fst ev) then Inl UnknownVariable
      else if \<not> list_all (\<lambda>x. x \<notin> set qs) (map fst ev) then Inl EvidenceQueryOverlap
      else if \<not> list_all (valid_state net) ev then Inl UnknownState
      else case apply_evidence (net_cpds net) ev of
             Inl e \<Rightarrow> Inl e
           | Inr fs \<Rightarrow>
               (case eliminate_all fs (elimination_order net qs ev) of
                  Inl e \<Rightarrow> Inl e
                | Inr gs \<Rightarrow>
                    (case normalize_factor (product_all gs) of
                       Inl e \<Rightarrow> Inl ZeroProbabilityEvidence
                     | Inr r \<Rightarrow> Inr r)))"

subsection \<open>Well-formedness and the meaning of a network\<close>

text \<open>
  The invariants of section 3. An assignment is valid on a scope when it gives every
  variable the index of one of its states. A factor is well formed over the registered
  variables when its scope has distinct registered variables and its table has one entry
  per joint assignment. A network is well formed when identifiers are unique, no domain is
  empty, every CPD is well formed and the CPDs are those of the variables, in order.
\<close>

definition valid_on :: "rvar list \<Rightarrow> assignment \<Rightarrow> bool" where
  "valid_on sc \<sigma> \<longleftrightarrow> (\<forall>v\<in>set sc. \<sigma> (fst v) < length (snd v))"

definition wf_factor :: "rvar list \<Rightarrow> factor \<Rightarrow> bool" where
  "wf_factor reg f \<longleftrightarrow>
     distinct (names (scope f)) \<and> set (scope f) \<subseteq> set reg \<and>
     length (vals f) = prod_list (cards (scope f))"

definition wf_network :: "network \<Rightarrow> bool" where
  "wf_network net \<longleftrightarrow>
     distinct (names (net_variables net)) \<and>
     (\<forall>v\<in>set (net_variables net). snd v \<noteq> []) \<and>
     (\<forall>f\<in>set (net_cpds net). wf_factor (net_variables net) f) \<and>
     map (\<lambda>f. take 1 (scope f)) (net_cpds net) = map (\<lambda>v. [v]) (net_variables net)"

text \<open>The product of the entries of all factors at an assignment.\<close>

definition joint :: "factor list \<Rightarrow> assignment \<Rightarrow> rat" where
  "joint fs \<sigma> = prod_list (map (\<lambda>f. lookup f \<sigma>) fs)"

text \<open>The sum of \<open>h\<close> over all joint states of the listed variables, the others fixed by \<open>\<sigma>\<close>.\<close>

fun sum_over :: "rvar list \<Rightarrow> (assignment \<Rightarrow> rat) \<Rightarrow> assignment \<Rightarrow> rat" where
  "sum_over [] h \<sigma> = h \<sigma>"
| "sum_over (v # vs) h \<sigma> =
     sum_list (map (\<lambda>k. sum_over vs h (\<sigma>(fst v := k))) [0..<length (snd v)])"

text \<open>The assignment that an evidence mapping fixes, on top of \<open>\<sigma>\<close>.\<close>

definition state_index :: "rvar list \<Rightarrow> string \<times> string \<Rightarrow> nat" where
  "state_index reg e =
     (case map_of reg (fst e) of
        None \<Rightarrow> 0
      | Some ss \<Rightarrow> (case index_of ss (snd e) of None \<Rightarrow> 0 | Some k \<Rightarrow> k))"

fun observe :: "rvar list \<Rightarrow> (string \<times> string) list \<Rightarrow> assignment \<Rightarrow> assignment" where
  "observe reg [] \<sigma> = \<sigma>"
| "observe reg (e # ev) \<sigma> = (observe reg ev \<sigma>)(fst e := state_index reg e)"

text \<open>
  The prior probability of an evidence mapping: the joint distribution (the product of all
  CPDs) summed over every joint state of the unobserved variables.
\<close>

definition unobserved :: "network \<Rightarrow> (string \<times> string) list \<Rightarrow> rvar list" where
  "unobserved net ev = filter (\<lambda>v. fst v \<notin> set (map fst ev)) (net_variables net)"

definition prior :: "network \<Rightarrow> (string \<times> string) list \<Rightarrow> rat" where
  "prior net ev =
     sum_over (unobserved net ev) (joint (net_cpds net)) (observe (net_variables net) ev (\<lambda>x. 0))"

text \<open>Two reductions in a row, the first failure being the result.\<close>

definition reduce_then :: "factor \<Rightarrow> string \<Rightarrow> string \<Rightarrow> string \<Rightarrow> string \<Rightarrow> error + factor" where
  "reduce_then f x s y t = (case reduce f x s of Inl e \<Rightarrow> Inl e | Inr g \<Rightarrow> reduce g y t)"

text \<open>
  An evidence entry is valid for the registered variables when its variable is registered
  and its state is one of that variable's states. A factor restricted by an evidence
  mapping keeps the unobserved variables of its scope; its entries are the entries of the
  factor at the observed states.
\<close>

definition valid_entry :: "rvar list \<Rightarrow> string \<times> string \<Rightarrow> bool" where
  "valid_entry reg e = (case map_of reg (fst e) of None \<Rightarrow> False | Some ss \<Rightarrow> snd e \<in> set ss)"

definition restrict :: "rvar list \<Rightarrow> (string \<times> string) list \<Rightarrow> factor \<Rightarrow> factor" where
  "restrict reg ev f =
     tabulate (filter (\<lambda>u. fst u \<notin> set (map fst ev)) (scope f)) (\<lambda>\<sigma>. lookup f (observe reg ev \<sigma>))"

text \<open>The factor list after eliminating \<open>x\<close>, a variable of \<open>n\<close> states (step 5).\<close>

definition eliminated :: "factor list \<Rightarrow> string \<Rightarrow> nat \<Rightarrow> factor list" where
  "eliminated fs x n =
     filter (\<lambda>f. x \<notin> set (names (scope f))) fs @
     [tabulate (filter (\<lambda>u. fst u \<noteq> x) (scope (product_all (filter (\<lambda>f. x \<in> set (names (scope f))) fs))))
        (\<lambda>\<sigma>. sum_list (map (\<lambda>k. lookup (product_all (filter (\<lambda>f. x \<in> set (names (scope f))) fs)) (\<sigma>(x := k)))
               [0..<n]))]"

text \<open>
  What a query on one variable \<open>q\<close> computes before normalising: for the state \<open>k\<close> of
  \<open>q\<close>, the joint distribution at the observed states, summed over the joint states of
  the variables that are eliminated (the first eliminated innermost).
\<close>

definition eliminable :: "network \<Rightarrow> string \<Rightarrow> (string \<times> string) list \<Rightarrow> rvar list" where
  "eliminable net q ev =
     filter (\<lambda>v. fst v \<noteq> q \<and> fst v \<notin> set (map fst ev)) (net_variables net)"

definition unnormalized :: "network \<Rightarrow> string \<Rightarrow> (string \<times> string) list \<Rightarrow> nat \<Rightarrow> rat" where
  "unnormalized net q ev k =
     sum_over (rev (eliminable net q ev))
       (\<lambda>\<tau>. joint (net_cpds net) (observe (net_variables net) ev \<tau>)) ((\<lambda>x. 0)(q := k))"

text \<open>
  The two-variable network of section 8: \<open>A \<rightarrow> B\<close>, \<open>A\<close> uniform over \<open>x, y\<close>, and
  \<open>P(B = 1 | A = x) = 0.2\<close>, \<open>P(B = 1 | A = y) = 0.8\<close>.
\<close>

definition toy_A :: rvar where
  "toy_A = (''A'', [''x'', ''y''])"

definition toy_B :: rvar where
  "toy_B = (''B'', [''0'', ''1''])"

definition toy_cpd_B :: factor where
  "toy_cpd_B = \<lparr>scope = [toy_B, toy_A], vals = [0.8, 0.2, 0.2, 0.8]\<rparr>"

definition toy_network :: network where
  "toy_network =
     \<lparr>net_variables = [toy_A, toy_B], net_edges = [(''A'', ''B'')],
      net_cpds = [\<lparr>scope = [toy_A], vals = [0.5, 0.5]\<rparr>, toy_cpd_B]\<rparr>"

subsection \<open>The network of the source as a network of the specification\<close>

text \<open>
  A table is exact when it has one row per state, one entry per column in each row, and
  in every column non-negative entries that sum to exactly 1. It is consistent when its
  declared cardinalities are the numbers of declared states.
\<close>

definition cpd_exact :: "tabular_cpd \<Rightarrow> bool" where
  "cpd_exact c \<longleftrightarrow>
     length (cpd_values c) = variable_card c \<and>
     (\<forall>row\<in>set (cpd_values c). length row = n_columns c) \<and>
     (\<forall>j<n_columns c. (\<forall>x\<in>set (column c j). 0 \<le> x) \<and> sum_list (column c j) = 1)"

definition cpd_consistent :: "tabular_cpd \<Rightarrow> bool" where
  "cpd_consistent c \<longleftrightarrow>
     length (states_of c (variable c)) = variable_card c \<and>
     map (\<lambda>n. length (states_of c n)) (evidence c) = evidence_card c \<and>
     distinct (variable c # evidence c)"

text \<open>The tables the module builds when no call raises, and their network.\<close>

definition model_tables :: "tabular_cpd list" where
  "model_tables = [cpd_magnitud, cpd_profundidad, cpd_tiempo, cpd_falla, cpd_patron,
                   cpd_intensidad, cpd_frecuencia, cpd_probabilidad (zip_star probs_rows)]"

definition model_network :: network where
  "model_network = network_of model_tables"

text \<open>The seven evidence variables and the outcome variable, with their declared states.\<close>

definition input_variables :: "rvar list" where
  "input_variables =
     [(''magnitud_historica'', magnitudes), (''profundidad_sismica'', profundidades),
      (''tiempo_ultimo_sismo'', tiempos), (''actividad_falla'', fallas),
      (''patron_sismico'', patrones), (''intensidad_historica'', intensidades),
      (''frecuencia_mensual'', frecuencias)]"

definition outcome_variable :: rvar where
  "outcome_variable = (''probabilidad_sismo'', [''baja'', ''media'', ''alta''])"

text \<open>
  Variables listed with the variables of their CPDs in topological order: no CPD
  mentions a variable that is listed after its own.
\<close>

fun topologically_listed :: "(string \<times> string list) list \<Rightarrow> bool" where
  "topologically_listed [] = True"
| "topologically_listed (p # ps) =
     (list_all (\<lambda>q. fst q \<notin> set (snd p)) ps \<and> topologically_listed ps)"

definition scope_names :: "(rvar \<times> factor) list \<Rightarrow> (string \<times> string list) list" where
  "scope_names ps = map (\<lambda>p. (fst (fst p), names (scope (snd p)))) ps"

definition model_listing :: "(rvar \<times> factor) list" where
  "model_listing = map (\<lambda>c. ((variable c, states_of c (variable c)), cpd_factor c)) model_tables"

text \<open>The product of the seven input CPDs: the prior of a full assignment of the inputs.\<close>

definition input_tables :: "tabular_cpd list" where
  "input_tables = [cpd_magnitud, cpd_profundidad, cpd_tiempo, cpd_falla, cpd_patron,
                   cpd_intensidad, cpd_frecuencia]"

definition input_joint :: "assignment \<Rightarrow> rat" where
  "input_joint \<sigma> = joint (map cpd_factor input_tables) \<sigma>"

text \<open>
  The evidence mapping that \<open>predecir_sismo\<close> builds from its seven arguments; the example
  \<open>evidence\<close> of the module has the same keys in the same order.
\<close>

definition evidencia ::
  "string \<Rightarrow> string \<Rightarrow> string \<Rightarrow> string \<Rightarrow> string \<Rightarrow> string \<Rightarrow> string \<Rightarrow> (string \<times> string) list" where
  "evidencia magnitud profundidad tiempo actividad patron intensidad frecuencia =
     [(''magnitud_historica'', magnitud), (''profundidad_sismica'', profundidad),
      (''tiempo_ultimo_sismo'', tiempo), (''actividad_falla'', actividad),
      (''patron_sismico'', patron), (''intensidad_historica'', intensidad),
      (''frecuencia_mensual'', frecuencia)]"

text \<open>
  The column of a table that belongs to a combination of parent states: the columns are
  numbered as \<open>product\<close> enumerates the combinations, the last parent varying fastest.
\<close>

definition position :: "string list \<Rightarrow> string \<Rightarrow> nat" where
  "position ss s = (case index_of ss s of None \<Rightarrow> 0 | Some k \<Rightarrow> k)"

definition column_of :: "string list list \<Rightarrow> string list \<Rightarrow> nat" where
  "column_of sss comb = radix (map length sss) (map2 position sss comb)"

lemma aplicar_magnitud:
  "e \<in> set magnitudes \<Longrightarrow>
   \<exists>x' y' z'. aplicar ''magnitud'' e [x, y, z] = Inr [x', y', z'] \<and> (y' = y \<or> y' = y - 1/20)"
  apply (simp add: magnitudes_def)
  apply (elim disjE)
  apply (simp_all add: aplicar_def getitem_def factores_def)
  done

lemma aplicar_profundidad:
  "e \<in> set profundidades \<Longrightarrow> \<exists>x' z'. aplicar ''profundidad'' e [x, y, z] = Inr [x', y, z']"
  apply (simp add: profundidades_def)
  apply (elim disjE)
  apply (simp_all add: aplicar_def getitem_def factores_def)
  done

lemma aplicar_tiempo:
  "e \<in> set tiempos \<Longrightarrow> \<exists>x' z'. aplicar ''tiempo'' e [x, y, z] = Inr [x', y, z']"
  apply (simp add: tiempos_def)
  apply (elim disjE)
  apply (simp_all add: aplicar_def getitem_def factores_def)
  done

lemma aplicar_falla:
  "e \<in> set fallas \<Longrightarrow> \<exists>x' z'. aplicar ''falla'' e [x, y, z] = Inr [x', y, z']"
  apply (simp add: fallas_def)
  apply (elim disjE)
  apply (simp_all add: aplicar_def getitem_def factores_def)
  done

lemma aplicar_patron:
  "e \<in> set patrones \<Longrightarrow> \<exists>x' z'. aplicar ''patron'' e [x, y, z] = Inr [x', y, z']"
  apply (simp add: patrones_def)
  apply (elim disjE)
  apply (simp_all add: aplicar_def getitem_def factores_def esporadico_def)
  done

lemma aplicar_intensidad:
  "e \<in> set intensidades \<Longrightarrow> \<exists>x' z'. aplicar ''intensidad'' e [x, y, z] = Inr [x', y, z']"
  apply (simp add: intensidades_def)
  apply (elim disjE)
  apply (simp_all add: aplicar_def getitem_def factores_def)
  done

lemma aplicar_frecuencia:
  "e \<in> set frecuencias \<Longrightarrow> \<exists>x' z'. aplicar ''frecuencia'' e [x, y, z] = Inr [x', y, z']"
  apply (simp add: frecuencias_def)
  apply (elim disjE)
  apply (simp_all add: aplicar_def getitem_def factores_def)
  done

lemma ajuste_final_ok:
  assumes "m \<in> set magnitudes" "p \<in> set profundidades" "t \<in> set tiempos" "f \<in> set fallas"
    "pa \<in> set patrones" "i \<in> set intensidades" "fr \<in> set frecuencias"
  shows "\<exists>x y z. ajuste_final m p t f pa i fr = Inr [x, y, z] \<and> (y = 0 \<or> y = - (1/20))"
proof -
  obtain x1 y1 z1 where 1: "aplicar ''magnitud'' m [0, 0, 0] = Inr [x1, y1, z1]" "y1 = 0 \<or> y1 = - (1/20)"
    using aplicar_magnitud [OF assms(1), of 0 0 0] by auto
  obtain x2 z2 where 2: "aplicar ''profundidad'' p [x1, y1, z1] = Inr [x2, y1, z2]"
    using aplicar_profundidad [OF assms(2)] by blast
  obtain x3 z3 where 3: "aplicar ''tiempo'' t [x2, y1, z2] = Inr [x3, y1, z3]"
    using aplicar_tiempo [OF assms(3)] by blast
  obtain x4 z4 where 4: "aplicar ''falla'' f [x3, y1, z3] = Inr [x4, y1, z4]"
    using aplicar_falla [OF assms(4)] by blast
  obtain x5 z5 where 5: "aplicar ''patron'' pa [x4, y1, z4] = Inr [x5, y1, z5]"
    using aplicar_patron [OF assms(5)] by blast
  obtain x6 z6 where 6: "aplicar ''intensidad'' i [x5, y1, z5] = Inr [x6, y1, z6]"
    using aplicar_intensidad [OF assms(6)] by blast
  obtain x7 z7 where 7: "aplicar ''frecuencia'' fr [x6, y1, z6] = Inr [x7, y1, z7]"
    using aplicar_frecuencia [OF assms(7)] by blast
  have "ajuste_final m p t f pa i fr = Inr [x7, y1, z7]"
    by (simp add: ajuste_final_def bind_err_def 1 2 3 4 5 6 7)
  with 1(2) show ?thesis by blast
qed

lemma recortadas_bounds:
  assumes "y = 0 \<or> y = - (1/20)"
  shows "\<exists>a b c. probs_recortadas [x, y, z] = [a, b, c] \<and> 0 \<le> a \<and> 1/4 \<le> b \<and> 0 \<le> c"
  using assms by (auto simp: probs_recortadas_def prob_base_def)

lemma calcular_ok:
  assumes "m \<in> set magnitudes" "p \<in> set profundidades" "t \<in> set tiempos" "f \<in> set fallas"
    "pa \<in> set patrones" "i \<in> set intensidades" "fr \<in> set frecuencias"
  shows "\<exists>aj a b c. ajuste_final m p t f pa i fr = Inr aj \<and> probs_recortadas aj = [a, b, c]
            \<and> 0 \<le> a \<and> 1/4 \<le> b \<and> 0 \<le> c
            \<and> calcular_probabilidades m p t f pa i fr = Inr [a / (a + b + c), b / (a + b + c), c / (a + b + c)]"
proof -
  obtain x y z where aj: "ajuste_final m p t f pa i fr = Inr [x, y, z]" "y = 0 \<or> y = - (1/20)"
    using ajuste_final_ok [OF assms] by blast
  obtain a b c where r: "probs_recortadas [x, y, z] = [a, b, c]" "0 \<le> a" "1/4 \<le> b" "0 \<le> c"
    using recortadas_bounds [OF aj(2)] by blast
  have pos: "a + b + c \<noteq> 0" using r by linarith
  have "calcular_probabilidades m p t f pa i fr = Inr [a / (a + b + c), b / (a + b + c), c / (a + b + c)]"
    using pos by (simp add: calcular_probabilidades_def bind_err_def aj r Let_def)
  with aj r show ?thesis by blast
qed

lemma nth_concat_uniform:
  "\<forall>ys\<in>set yss. length ys = n \<Longrightarrow> i < length yss \<Longrightarrow> j < n \<Longrightarrow> concat yss ! (i * n + j) = yss ! i ! j"
proof (induction yss arbitrary: i)
  case Nil
  then show ?case by simp
next
  case (Cons ys yss)
  show ?case
  proof (cases i)
    case 0
    with Cons.prems show ?thesis by (simp add: nth_append)
  next
    case (Suc k)
    with Cons.prems have "concat yss ! (k * n + j) = yss ! k ! j"
      by (intro Cons.IH) auto
    with Suc Cons.prems show ?thesis by (simp add: nth_append add.assoc)
  qed
qed

lemma length_product_lists_prod: "length (product_lists xss) = prod_list (map length xss)"
  by (induction xss) (simp_all add: length_concat comp_def sum_list_triv)

lemma radix_less:
  "length ds = length cs \<Longrightarrow> \<forall>j<length cs. ds ! j < cs ! j \<Longrightarrow> radix cs ds < prod_list cs"
proof (induction cs ds rule: radix.induct)
  case (1 c cs i "is")
  have i: "i < c" using "1.prems"(2) by (auto dest: spec [of _ 0])
  have "\<forall>j<length cs. is ! j < cs ! j"
  proof (intro allI impI)
    fix j assume "j < length cs"
    then show "is ! j < cs ! j" using "1.prems"(2) by (auto dest: spec [of _ "Suc j"])
  qed
  then have r: "radix cs is < prod_list cs" using "1.prems"(1) by (intro "1.IH") auto
  have "i * prod_list cs + radix cs is < i * prod_list cs + prod_list cs" using r by simp
  also have "\<dots> = Suc i * prod_list cs" by simp
  also have "\<dots> \<le> c * prod_list cs" using i by (intro mult_le_mono1) simp
  finally show ?case by simp
qed auto

lemma nth_product_lists:
  "length ds = length xss \<Longrightarrow> \<forall>j<length xss. ds ! j < length (xss ! j) \<Longrightarrow>
   product_lists xss ! radix (map length xss) ds = map (\<lambda>(xs, i). xs ! i) (zip xss ds)"
proof (induction xss arbitrary: ds)
  case Nil
  then show ?case by simp
next
  case (Cons xs xss)
  then obtain i "is" where ds: "ds = i # is" by (cases ds) auto
  have i: "i < length xs" using Cons.prems(2) ds by (auto dest: spec [of _ 0])
  have rest: "\<forall>j<length xss. is ! j < length (xss ! j)"
  proof (intro allI impI)
    fix j assume "j < length xss"
    then show "is ! j < length (xss ! j)" using Cons.prems(2) ds by (auto dest: spec [of _ "Suc j"])
  qed
  have len: "length is = length xss" using Cons.prems(1) ds by simp
  have IH: "product_lists xss ! radix (map length xss) is = map (\<lambda>(xs, i). xs ! i) (zip xss is)"
    using Cons.IH [OF len rest] .
  have r: "radix (map length xss) is < prod_list (map length xss)"
    using len rest by (intro radix_less) auto
  let ?n = "prod_list (map length xss)"
  let ?yss = "map (\<lambda>x. map (Cons x) (product_lists xss)) xs"
  have "concat ?yss ! (i * ?n + radix (map length xss) is) = ?yss ! i ! radix (map length xss) is"
    using i r by (intro nth_concat_uniform) (auto simp: length_product_lists_prod)
  also have "\<dots> = xs ! i # product_lists xss ! radix (map length xss) is"
    using i r by (simp add: length_product_lists_prod)
  finally show ?case using ds IH by simp
qed

lemma collect_map:
  "\<forall>x\<in>set xs. \<exists>y. f x = Inr y \<Longrightarrow> collect f xs = Inr (map (\<lambda>x. projr (f x)) xs)"
  by (induction xs) auto

lemma lens: "map length state_lists = [4, 4, 4, 3, 4, 4, 4]"
  by (simp add: state_lists_def magnitudes_def profundidades_def tiempos_def
      fallas_def patrones_def intensidades_def frecuencias_def)

lemma n_combos: "length (product_lists state_lists) = 12288"
  by (simp only: length_product_lists_prod lens) simp

lemma comb_in:
  assumes "comb \<in> set (product_lists state_lists)"
  shows "\<exists>m p t f pa i fr. comb = [m, p, t, f, pa, i, fr] \<and> m \<in> set magnitudes \<and> p \<in> set profundidades
     \<and> t \<in> set tiempos \<and> f \<in> set fallas \<and> pa \<in> set patrones \<and> i \<in> set intensidades \<and> fr \<in> set frecuencias"
proof -
  from assms have "list_all2 (\<lambda>x ys. x \<in> set ys) comb state_lists"
    by (simp only: product_lists_set mem_Collect_eq)
  then show ?thesis
    unfolding state_lists_def
    by (simp only: list_all2_Cons2 list_all2_Nil2) blast
qed

lemma calcular_comb_ok:
  assumes "comb \<in> set (product_lists state_lists)"
  shows "\<exists>a b c. calcular_comb comb = Inr [a / (a + b + c), b / (a + b + c), c / (a + b + c)]
      \<and> 0 \<le> a \<and> 1/4 \<le> b \<and> 0 \<le> c"
proof -
  obtain m p t f pa i fr where c: "comb = [m, p, t, f, pa, i, fr]" "m \<in> set magnitudes" "p \<in> set profundidades"
     "t \<in> set tiempos" "f \<in> set fallas" "pa \<in> set patrones" "i \<in> set intensidades" "fr \<in> set frecuencias"
    using comb_in [OF assms] by blast
  from calcular_ok [OF c(2-8)] c(1) show ?thesis by auto
qed

lemma full_probs_rows: "full_probs = Inr probs_rows"
  unfolding full_probs_def probs_rows_def
  by (rule collect_map) (use calcular_comb_ok in blast)

lemma length_probs_rows: "length probs_rows = 12288"
  by (simp add: probs_rows_def n_combos)

lemma probs_rows_nth:
  assumes "j < 12288"
  shows "\<exists>a b c. probs_rows ! j = [a / (a + b + c), b / (a + b + c), c / (a + b + c)]
      \<and> 0 \<le> a \<and> 1/4 \<le> b \<and> 0 \<le> c"
proof -
  have "product_lists state_lists ! j \<in> set (product_lists state_lists)"
    using assms by (simp add: n_combos)
  from calcular_comb_ok [OF this] obtain a b c where
    "calcular_comb (product_lists state_lists ! j) = Inr [a / (a + b + c), b / (a + b + c), c / (a + b + c)]"
    "0 \<le> a" "1/4 \<le> b" "0 \<le> c" by blast
  moreover have "probs_rows ! j = projr (calcular_comb (product_lists state_lists ! j))"
    using assms by (simp add: probs_rows_def n_combos)
  ultimately have "probs_rows ! j = [a / (a + b + c), b / (a + b + c), c / (a + b + c)]
      \<and> 0 \<le> a \<and> 1/4 \<le> b \<and> 0 \<le> c" by simp
  then show ?thesis by blast
qed

lemma probs_rows_length3: "r \<in> set probs_rows \<Longrightarrow> length r = 3"
proof -
  assume "r \<in> set probs_rows"
  then obtain comb where "comb \<in> set (product_lists state_lists)" "r = projr (calcular_comb comb)"
    by (auto simp: probs_rows_def)
  with calcular_comb_ok [of comb] show ?thesis by auto
qed

lemma min_list_const:
  fixes n :: nat
  assumes "xs \<noteq> []" "\<forall>x\<in>set xs. x = n"
  shows "min_list xs = n"
proof -
  have "set xs = {n}" using assms by (cases xs) auto
  then show ?thesis using assms(1) by (simp add: min_list_Min)
qed

lemma zip_star_nonempty:
  "rows \<noteq> [] \<Longrightarrow> zip_star rows = map (\<lambda>i. map (\<lambda>r. r ! i) rows) [0..<min_list (map length rows)]"
  by (cases rows) (simp_all add: zip_star_def)

lemma zip_star_probs_rows:
  "zip_star probs_rows = map (\<lambda>i. map (\<lambda>r. r ! i) probs_rows) [0, 1, 2]"
proof -
  have ne: "probs_rows \<noteq> []" using length_probs_rows by auto
  have m: "min_list (map length probs_rows) = 3"
    using ne by (intro min_list_const) (auto simp: probs_rows_length3)
  have u: "[0..<3] = [0, 1, 2::nat]" by (simp add: upt_rec)
  have "zip_star probs_rows = map (\<lambda>i. map (\<lambda>r. r ! i) probs_rows) [0..<min_list (map length probs_rows)]"
    using ne by (rule zip_star_nonempty)
  then show ?thesis by (simp only: m u)
qed

lemma full_probs_transposed_eq: "full_probs_transposed = Inr (zip_star probs_rows)"
  by (simp add: full_probs_transposed_def full_probs_rows)

lemma column_probabilidad:
  assumes "j < 12288"
  shows "column (cpd_probabilidad (zip_star probs_rows)) j = probs_rows ! j"
proof -
  obtain a b c where "probs_rows ! j = [a, b, c]" using probs_rows_nth [OF assms] by blast
  then show ?thesis
    using assms by (simp add: column_def cpd_probabilidad_def zip_star_probs_rows length_probs_rows)
qed

lemma all_less_numeral_3: "(\<forall>j<3. P j) \<longleftrightarrow> P (0::nat) \<and> P 1 \<and> P 2"
  by (auto simp: eval_nat_numeral less_Suc_eq)

lemma all_less_numeral_16:
  "(\<forall>j<16. P j) \<longleftrightarrow> P (0::nat) \<and> P 1 \<and> P 2 \<and> P 3 \<and> P 4 \<and> P 5 \<and> P 6 \<and> P 7 \<and> P 8 \<and> P 9
      \<and> P 10 \<and> P 11 \<and> P 12 \<and> P 13 \<and> P 14 \<and> P 15"
proof
  assume "\<forall>j<16. P j"
  then show "P 0 \<and> P 1 \<and> P 2 \<and> P 3 \<and> P 4 \<and> P 5 \<and> P 6 \<and> P 7 \<and> P 8 \<and> P 9
      \<and> P 10 \<and> P 11 \<and> P 12 \<and> P 13 \<and> P 14 \<and> P 15" by simp
next
  assume r: "P 0 \<and> P 1 \<and> P 2 \<and> P 3 \<and> P 4 \<and> P 5 \<and> P 6 \<and> P 7 \<and> P 8 \<and> P 9
      \<and> P 10 \<and> P 11 \<and> P 12 \<and> P 13 \<and> P 14 \<and> P 15"
  show "\<forall>j<16. P j"
  proof (intro allI impI)
    fix j :: nat assume "j < 16"
    then have "j = 0 \<or> j = 1 \<or> j = 2 \<or> j = 3 \<or> j = 4 \<or> j = 5 \<or> j = 6 \<or> j = 7 \<or> j = 8 \<or> j = 9
      \<or> j = 10 \<or> j = 11 \<or> j = 12 \<or> j = 13 \<or> j = 14 \<or> j = 15" by presburger
    with r show "P j" by blast
  qed
qed

lemma normalized_magnitud: "cpd_normalized cpd_magnitud"
  by (simp add: cpd_normalized_def cpd_magnitud_def n_columns_def column_def)

lemma normalized_profundidad: "cpd_normalized cpd_profundidad"
  by (simp add: cpd_normalized_def cpd_profundidad_def n_columns_def column_def)

lemma normalized_tiempo: "cpd_normalized cpd_tiempo"
  by (simp add: cpd_normalized_def cpd_tiempo_def n_columns_def column_def)

lemma normalized_falla: "cpd_normalized cpd_falla"
  by (simp add: cpd_normalized_def cpd_falla_def n_columns_def column_def)

lemma normalized_patron: "cpd_normalized cpd_patron"
  by (simp add: cpd_normalized_def cpd_patron_def n_columns_def column_def all_less_numeral_3)

lemma normalized_frecuencia: "cpd_normalized cpd_frecuencia"
  by (simp add: cpd_normalized_def cpd_frecuencia_def n_columns_def column_def all_less_numeral_3)

lemma normalized_intensidad: "cpd_normalized cpd_intensidad"
  by (simp add: cpd_normalized_def cpd_intensidad_def n_columns_def column_def all_less_numeral_16)

lemma n_columns_probabilidad: "n_columns (cpd_probabilidad vs) = 12288"
  by (simp add: n_columns_def cpd_probabilidad_def)

lemma sum3:
  fixes a b c :: rat
  assumes "0 \<le> a" "1/4 \<le> b" "0 \<le> c"
  shows "a / (a + b + c) + (b / (a + b + c) + c / (a + b + c)) = 1"
proof -
  have "a + b + c \<noteq> 0" using assms by linarith
  then show ?thesis by (simp add: add_divide_distrib [symmetric] add.assoc)
qed

lemma normalized_probabilidad: "cpd_normalized (cpd_probabilidad (zip_star probs_rows))"
proof -
  let ?c = "cpd_probabilidad (zip_star probs_rows)"
  have v: "cpd_values ?c = zip_star probs_rows" by (simp add: cpd_probabilidad_def)
  have 1: "length (cpd_values ?c) = variable_card ?c"
    by (simp add: cpd_probabilidad_def zip_star_probs_rows)
  have 2: "\<forall>row\<in>set (cpd_values ?c). length row = n_columns ?c"
    unfolding v n_columns_probabilidad by (simp add: zip_star_probs_rows length_probs_rows)
  have 3: "(\<forall>x\<in>set (column ?c j). 0 \<le> x) \<and> \<bar>sum_list (column ?c j) - 1\<bar> \<le> 1 / 10 ^ 6"
    if jl: "j < 12288" for j
  proof -
    obtain a b c where r: "probs_rows ! j = [a / (a + b + c), b / (a + b + c), c / (a + b + c)]"
      "0 \<le> a" "1/4 \<le> b" "0 \<le> c" using probs_rows_nth [OF jl] by blast
    have s: "0 \<le> a + b + c" using r by linarith
    show ?thesis
      unfolding column_probabilidad [OF jl] r(1)
      using r(2-4) s sum3 [OF r(2-4)] by simp
  qed
  show ?thesis
    unfolding cpd_normalized_def using 1 2 3 by (simp only: n_columns_probabilidad) blast
qed

section \<open>Claims about the tables\<close>

text \<open>
  C10. For every tuple of the Cartesian product of the seven state lists the call
  \<open>calcular_probabilidades(*comb)\<close> returns: no dictionary lookup raises (the adjustment
  is computed), the clamped "media" component is at least 0.25, the normalising sum is
  strictly positive, and the result is the clamped vector divided by that sum.
\<close>

theorem calcular_probabilidades_total:
  assumes "comb \<in> set (product_lists state_lists)"
  shows "\<exists>m p t f pa i fr aj.
           comb = [m, p, t, f, pa, i, fr] \<and>
           ajuste_final m p t f pa i fr = Inr aj \<and>
           1 / 4 \<le> probs_recortadas aj ! 1 \<and>
           0 < sum_list (probs_recortadas aj) \<and>
           calcular_comb comb =
             Inr (map (\<lambda>p. p / sum_list (probs_recortadas aj)) (probs_recortadas aj))"
proof -
  obtain m p t f pa i fr where c: "comb = [m, p, t, f, pa, i, fr]" "m \<in> set magnitudes"
     "p \<in> set profundidades" "t \<in> set tiempos" "f \<in> set fallas" "pa \<in> set patrones"
     "i \<in> set intensidades" "fr \<in> set frecuencias"
    using comb_in [OF assms] by blast
  obtain aj a b c' where r: "ajuste_final m p t f pa i fr = Inr aj" "probs_recortadas aj = [a, b, c']"
    "0 \<le> a" "1/4 \<le> b" "0 \<le> c'"
    "calcular_probabilidades m p t f pa i fr = Inr [a / (a + b + c'), b / (a + b + c'), c' / (a + b + c')]"
    using calcular_ok [OF c(2-8)] by blast
  have pos: "0 < a + b + c'" using r(3-5) by linarith
  have "1 / 4 \<le> probs_recortadas aj ! 1" using r by simp
  moreover have "0 < sum_list (probs_recortadas aj)" using pos r(2) by (simp add: add.assoc)
  moreover have "calcular_comb comb =
      Inr (map (\<lambda>p. p / sum_list (probs_recortadas aj)) (probs_recortadas aj))"
    using c(1) r(2,6) by (simp add: add.assoc)
  ultimately show ?thesis using c(1) r(1) by blast
qed

theorem calcular_probabilidades_total_witness:
  "[''baja'', ''superficial'', ''reciente'', ''baja'', esporadico, ''baja'', ''baja'']
     \<in> set (product_lists state_lists) \<and>
   (\<exists>aj. ajuste_final ''baja'' ''superficial'' ''reciente'' ''baja'' esporadico ''baja'' ''baja'' = Inr aj \<and>
      1 / 4 \<le> probs_recortadas aj ! 1 \<and> 0 < sum_list (probs_recortadas aj) \<and>
      calcular_probabilidades ''baja'' ''superficial'' ''reciente'' ''baja'' esporadico ''baja'' ''baja'' =
        Inr (map (\<lambda>p. p / sum_list (probs_recortadas aj)) (probs_recortadas aj)))"
proof -
  have h: "[''baja'', ''superficial'', ''reciente'', ''baja'', esporadico, ''baja'', ''baja'']
     \<in> set (product_lists state_lists)"
    unfolding product_lists_set
    by (simp add: state_lists_def magnitudes_def profundidades_def tiempos_def fallas_def
        patrones_def intensidades_def frecuencias_def)
  from calcular_probabilidades_total [OF h] show ?thesis using h by auto
qed

text \<open>
  C3. The module builds eight tables, and each satisfies the normalisation invariant: for
  every column (a fixed assignment of the parents) the entries over the target's states are
  non-negative and sum to 1 within \<open>1e-6\<close>. The last table is the outcome table, with
  12288 columns.
\<close>

theorem all_cpds_normalized:
  "\<exists>cs. model_cpds = Inr cs \<and> length cs = 8 \<and>
        map variable cs = nodes \<and>
        n_columns (cs ! 7) = 12288 \<and>
        (\<forall>c\<in>set cs. cpd_normalized c)"
proof -
  let ?cs = "[cpd_magnitud, cpd_profundidad, cpd_tiempo, cpd_falla, cpd_patron, cpd_intensidad,
    cpd_frecuencia, cpd_probabilidad (zip_star probs_rows)]"
  have "model_cpds = Inr ?cs"
    by (simp add: model_cpds_def full_probs_transposed_eq)
  moreover have "map variable ?cs = nodes"
    by (simp add: nodes_def cpd_magnitud_def cpd_profundidad_def cpd_tiempo_def cpd_falla_def
        cpd_patron_def cpd_intensidad_def cpd_frecuencia_def cpd_probabilidad_def)
  moreover have "n_columns (?cs ! 7) = 12288"
    by (simp add: n_columns_probabilidad)
  moreover have "\<forall>c\<in>set ?cs. cpd_normalized c"
    using normalized_magnitud normalized_profundidad normalized_tiempo normalized_falla
      normalized_patron normalized_intensidad normalized_frecuencia normalized_probabilidad
    by simp
  ultimately show ?thesis by (intro exI [of _ ?cs]) simp
qed

theorem all_cpds_normalized_witness:
  "\<exists>cs. model_cpds = Inr cs \<and> cpd_normalized (cs ! 4) \<and> cs ! 4 = cpd_patron \<and>
     sum_list (column cpd_patron 0) = 1"
proof -
  from all_cpds_normalized obtain cs where cs: "model_cpds = Inr cs" "length cs = 8"
    "\<forall>c\<in>set cs. cpd_normalized c" by blast
  have "cs ! 4 \<in> set cs" using cs(2) by simp
  then have "cpd_normalized (cs ! 4)" using cs(3) by blast
  moreover have "cs ! 4 = cpd_patron"
    using cs(1) by (auto simp: model_cpds_def full_probs_transposed_eq)
  moreover have "sum_list (column cpd_patron 0) = 1"
    by (simp add: column_def cpd_patron_def)
  ultimately show ?thesis using cs(1) by blast
qed

lemma ranked_acyclic:
  fixes rank :: "'a \<Rightarrow> nat"
  assumes "\<forall>(a, b)\<in>r. rank a < rank b"
  shows "acyclic r"
proof -
  have "r \<subseteq> measure rank" using assms by auto
  moreover have "acyclic (measure rank)" by (intro wf_acyclic) simp
  ultimately show ?thesis by (rule acyclic_subset [rotated])
qed

lemma sort_nodes: "topological_sort edges nodes = Inr nodes"
  by code_simp

lemma order_nodes: "topological_order edges nodes"
  by code_simp

text \<open>
  C6. The eleven edges of the source are acyclic: the topological sort of the construction
  step succeeds on them (it does not fail with \<open>CyclicGraph\<close>) and returns an order in
  which every edge points forward.
\<close>

theorem edges_acyclic:
  "acyclic (set edges) \<and> topological_sort edges nodes = Inr nodes \<and> topological_order edges nodes"
proof -
  define rank :: "string \<Rightarrow> nat" where
    "rank x = (if x = ''probabilidad_sismo'' then 2
               else if x = ''intensidad_historica'' \<or> x = ''patron_sismico'' \<or> x = ''frecuencia_mensual''
               then 1 else 0)" for x
  have "\<forall>(a, b)\<in>set edges. rank a < rank b"
    by (simp add: edges_def rank_def)
  then have "acyclic (set edges)" by (rule ranked_acyclic)
  then show ?thesis using sort_nodes order_nodes by simp
qed

theorem edges_acyclic_witness:
  "is_source edges nodes ''magnitud_historica'' \<and> topological_sort edges nodes \<noteq> Inl CyclicGraph"
proof -
  have "is_source edges nodes ''magnitud_historica''" by code_simp
  then show ?thesis using edges_acyclic by simp
qed

subsection \<open>Tables and their entries\<close>

lemma length_assignments: "length (assignments sc) = prod_list (cards sc)"
  by (simp add: assignments_def cards_def length_product_lists_prod comp_def)

lemma in_assignments:
  "ds \<in> set (assignments sc) \<longleftrightarrow> length ds = length sc \<and> (\<forall>j<length sc. ds ! j < length (snd (sc ! j)))"
  unfolding assignments_def product_lists_set
  by (auto simp: list_all2_conv_all_nth)

lemma radix_digits_less:
  assumes "valid_on sc \<sigma>"
  shows "radix (cards sc) (digits sc \<sigma>) < prod_list (cards sc)"
  using assms by (intro radix_less) (auto simp: cards_def digits_def valid_on_def)

lemma assignments_nth_radix:
  assumes "length ds = length sc" "\<forall>j<length sc. ds ! j < length (snd (sc ! j))"
  shows "assignments sc ! radix (cards sc) ds = ds"
proof -
  let ?xss = "map (\<lambda>v. [0..<length (snd v)]) sc"
  have c: "map length ?xss = cards sc" by (simp add: cards_def)
  have "product_lists ?xss ! radix (map length ?xss) ds = map (\<lambda>(xs, i). xs ! i) (zip ?xss ds)"
    using assms by (intro nth_product_lists) auto
  also have "\<dots> = ds"
    using assms by (intro nth_equalityI) auto
  finally show ?thesis unfolding c by (simp add: assignments_def)
qed

lemma assignments_nth_digits:
  assumes "valid_on sc \<sigma>"
  shows "assignments sc ! radix (cards sc) (digits sc \<sigma>) = digits sc \<sigma>"
  using assms by (intro assignments_nth_radix) (auto simp: digits_def valid_on_def)

lemma assignment_of_digits:
  "assignment_of sc (digits sc \<sigma>) = (\<lambda>x. if x \<in> set (names sc) then \<sigma> x else 0)"
proof -
  have "digits sc \<sigma> = map \<sigma> (names sc)" by (simp add: digits_def names_def)
  then show ?thesis by (simp add: assignment_of_def map_of_zip_map fun_eq_iff)
qed

lemma lookup_tabulate:
  assumes "valid_on sc \<sigma>"
  shows "lookup (tabulate sc g) \<sigma> = g (\<lambda>x. if x \<in> set (names sc) then \<sigma> x else 0)"
proof -
  have "radix (cards sc) (digits sc \<sigma>) < length (assignments sc)"
    using radix_digits_less [OF assms] by (simp add: length_assignments)
  then show ?thesis
    by (simp add: lookup_def tabulate_def assignments_nth_digits [OF assms] assignment_of_digits)
qed

lemma lookup_cong:
  assumes "\<forall>x\<in>set (names (scope f)). \<sigma> x = \<tau> x"
  shows "lookup f \<sigma> = lookup f \<tau>"
proof -
  have "digits (scope f) \<sigma> = digits (scope f) \<tau>"
    using assms by (auto simp: digits_def names_def)
  then show ?thesis by (simp add: lookup_def)
qed

lemma assignment_of_nth:
  assumes "distinct (names sc)" "length ds = length sc" "j < length sc"
  shows "assignment_of sc ds (fst (sc ! j)) = ds ! j"
proof -
  have "map_of (zip (names sc) ds) (names sc ! j) = Some (ds ! j)"
    using assms by (intro map_of_zip_nth) (auto simp: names_def)
  then show ?thesis using assms(3) by (simp add: assignment_of_def names_def)
qed

lemma assignment_of_valid:
  assumes "distinct (names sc)" "ds \<in> set (assignments sc)"
  shows "valid_on sc (assignment_of sc ds)"
  unfolding valid_on_def
proof
  fix v assume "v \<in> set sc"
  then obtain j where j: "j < length sc" "sc ! j = v" by (auto simp: in_set_conv_nth)
  have l: "length ds = length sc" "ds ! j < length (snd (sc ! j))"
    using assms(2) j(1) by (auto simp: in_assignments)
  show "assignment_of sc ds (fst v) < length (snd v)"
    using assignment_of_nth [OF assms(1) l(1) j(1)] l(2) j(2) by simp
qed

lemma assignment_of_outside: "x \<notin> set (names sc) \<Longrightarrow> assignment_of sc ds x = 0"
proof -
  assume "x \<notin> set (names sc)"
  then have "map_of (zip (names sc) ds) x = None"
    by (auto simp: map_of_eq_None_iff dest: set_zip_leftD)
  then show ?thesis by (simp add: assignment_of_def)
qed

lemma digits_assignment_of:
  assumes "distinct (names sc)" "length ds = length sc"
  shows "digits sc (assignment_of sc ds) = ds"
  using assms by (intro nth_equalityI) (auto simp: digits_def assignment_of_nth)

lemma tabulate_cong:
  assumes "\<And>ds. ds \<in> set (assignments sc) \<Longrightarrow> g (assignment_of sc ds) = h (assignment_of sc ds)"
  shows "tabulate sc g = tabulate sc h"
  using assms by (simp add: tabulate_def)

subsection \<open>The factor operations, entry by entry\<close>

lemma lookup_tabulate_local:
  assumes "valid_on sc \<sigma>"
    and "\<And>\<tau>. (\<forall>x\<in>set (names sc). \<tau> x = \<sigma> x) \<Longrightarrow> g \<tau> = g \<sigma>"
  shows "lookup (tabulate sc g) \<sigma> = g \<sigma>"
  unfolding lookup_tabulate [OF assms(1)] by (rule assms(2)) simp

lemma valid_on_subset: "set sc \<subseteq> set reg \<Longrightarrow> valid_on reg \<sigma> \<Longrightarrow> valid_on sc \<sigma>"
  by (auto simp: valid_on_def)

lemma registered_unique:
  assumes "distinct (names reg)" "u \<in> set reg" "v \<in> set reg" "fst u = fst v"
  shows "u = v"
proof -
  have "(fst u, snd u) \<in> set reg" by (simp add: assms(2))
  moreover have "(fst u, snd v) \<in> set reg" by (simp add: assms(3,4))
  ultimately have "snd u = snd v"
    using assms(1) unfolding names_def by (metis eq_key_imp_eq_value)
  then show ?thesis using assms(4) by (simp add: prod_eq_iff)
qed

lemma valid_on_update:
  assumes "distinct (names reg)" "valid_on reg \<sigma>" "v \<in> set reg" "k < length (snd v)"
  shows "valid_on reg (\<sigma>(fst v := k))"
  unfolding valid_on_def
proof
  fix u assume u: "u \<in> set reg"
  show "(\<sigma>(fst v := k)) (fst u) < length (snd u)"
  proof (cases "fst u = fst v")
    case True
    then have "u = v" using registered_unique [OF assms(1) u assms(3)] by simp
    then show ?thesis using assms(4) by simp
  next
    case False
    then show ?thesis using assms(2) u by (simp add: valid_on_def)
  qed
qed

lemma scope_tabulate [simp]: "scope (tabulate sc g) = sc"
  by (simp add: tabulate_def)

lemma wf_tabulate:
  "distinct (names sc) \<Longrightarrow> set sc \<subseteq> set reg \<Longrightarrow> wf_factor reg (tabulate sc g)"
  by (simp add: wf_factor_def) (simp add: tabulate_def length_assignments)

lemma distinct_names_filter: "distinct (names sc) \<Longrightarrow> distinct (names (filter P sc))"
  by (simp add: names_def distinct_map_filter)

lemma names_filter_neq: "set (names (filter (\<lambda>u. fst u \<noteq> x) sc)) = set (names sc) - {x}"
  by (auto simp: names_def)

lemma scope_product:
  "scope (factor_product a b) = scope a @ filter (\<lambda>v. fst v \<notin> set (names (scope a))) (scope b)"
  by (simp add: factor_product_def)

lemma names_product: "set (names (scope (factor_product a b))) = set (names (scope a)) \<union> set (names (scope b))"
  by (auto simp: scope_product names_def)

lemma wf_product:
  assumes "wf_factor reg a" "wf_factor reg b"
  shows "wf_factor reg (factor_product a b)"
proof -
  let ?sc = "scope a @ filter (\<lambda>v. fst v \<notin> set (names (scope a))) (scope b)"
  have "distinct (names (filter (\<lambda>v. fst v \<notin> set (names (scope a))) (scope b)))"
    using assms(2) by (intro distinct_names_filter) (simp add: wf_factor_def)
  then have "distinct (names ?sc)"
    using assms(1) by (force simp: names_def wf_factor_def)
  moreover have "set ?sc \<subseteq> set reg" using assms by (auto simp: wf_factor_def)
  ultimately show ?thesis unfolding factor_product_def by (rule wf_tabulate)
qed

lemma lookup_product:
  assumes "valid_on (scope (factor_product a b)) \<sigma>"
  shows "lookup (factor_product a b) \<sigma> = lookup a \<sigma> * lookup b \<sigma>"
proof -
  let ?sc = "scope a @ filter (\<lambda>v. fst v \<notin> set (names (scope a))) (scope b)"
  have v: "valid_on ?sc \<sigma>" using assms by (simp add: scope_product)
  have n: "set (names ?sc) = set (names (scope a)) \<union> set (names (scope b))"
    using names_product [of a b] by (simp add: scope_product)
  show ?thesis
    unfolding factor_product_def
  proof (rule lookup_tabulate_local [OF v])
    fix \<tau> assume "\<forall>x\<in>set (names ?sc). \<tau> x = \<sigma> x"
    then have "lookup a \<tau> = lookup a \<sigma>" "lookup b \<tau> = lookup b \<sigma>"
      unfolding n by (auto intro!: lookup_cong)
    then show "lookup a \<tau> * lookup b \<tau> = lookup a \<sigma> * lookup b \<sigma>" by simp
  qed
qed

lemma find_registered:
  assumes "distinct (names reg)" "set sc \<subseteq> set reg" "x \<in> set (names sc)" "map_of reg x = Some ss"
  shows "find (\<lambda>v. fst v = x) sc = Some (x, ss)"
proof -
  obtain v where v: "find (\<lambda>v. fst v = x) sc = Some v"
    using assms(3) by (cases "find (\<lambda>v. fst v = x) sc") (auto simp: find_None_iff names_def)
  then have "v \<in> set sc" "fst v = x" by (auto simp: find_Some_iff)
  then have "v \<in> set reg" using assms(2) by auto
  then have "map_of reg (fst v) = Some (snd v)"
    using assms(1) by (intro map_of_is_SomeI) (auto simp: names_def)
  with assms(4) \<open>fst v = x\<close> have "v = (x, ss)" by (auto simp: prod_eq_iff)
  with v show ?thesis by simp
qed

lemma marginalize_eq:
  assumes "distinct (names reg)" "wf_factor reg f" "x \<in> set (names (scope f))" "map_of reg x = Some ss"
  shows "marginalize f x =
     Inr (tabulate (filter (\<lambda>u. fst u \<noteq> x) (scope f))
            (\<lambda>\<sigma>. sum_list (map (\<lambda>k. lookup f (\<sigma>(x := k))) [0..<length ss])))"
  using find_registered [OF assms(1) _ assms(3,4)] assms(2)
  by (simp add: marginalize_def wf_factor_def)

lemma reduce_eq:
  assumes "distinct (names reg)" "wf_factor reg f" "x \<in> set (names (scope f))" "map_of reg x = Some ss"
    "index_of ss s = Some k"
  shows "reduce f x s =
     Inr (tabulate (filter (\<lambda>u. fst u \<noteq> x) (scope f)) (\<lambda>\<sigma>. lookup f (\<sigma>(x := k))))"
  using find_registered [OF assms(1) _ assms(3,4)] assms(2,5)
  by (simp add: reduce_def wf_factor_def)

lemma wf_removed:
  assumes "wf_factor reg f"
  shows "wf_factor reg (tabulate (filter (\<lambda>u. fst u \<noteq> x) (scope f)) g)"
  using assms by (intro wf_tabulate distinct_names_filter) (auto simp: wf_factor_def)

lemma lookup_removed:
  assumes "valid_on (filter (\<lambda>u. fst u \<noteq> x) (scope f)) \<sigma>"
    and "\<And>\<tau>. h \<tau> = G (\<lambda>k. lookup f (\<tau>(x := k)))"
  shows "lookup (tabulate (filter (\<lambda>u. fst u \<noteq> x) (scope f)) h) \<sigma> = h \<sigma>"
proof (rule lookup_tabulate_local [OF assms(1)])
  fix \<tau> assume a: "\<forall>y\<in>set (names (filter (\<lambda>u. fst u \<noteq> x) (scope f))). \<tau> y = \<sigma> y"
  have "lookup f (\<tau>(x := k)) = lookup f (\<sigma>(x := k))" for k
    using a by (intro lookup_cong) (auto simp: names_filter_neq)
  then show "h \<tau> = h \<sigma>" by (simp add: assms(2))
qed

lemma index_of_less: "index_of xs x = Some k \<Longrightarrow> k < length xs \<and> xs ! k = x"
  by (induction xs arbitrary: k) (auto split: if_splits)

lemma index_of_None: "index_of xs x = None \<longleftrightarrow> x \<notin> set xs"
  by (induction xs) auto

subsection \<open>Reductions on different variables commute\<close>

lemma find_in_scope:
  assumes "x \<in> set (names sc)"
  obtains v where "find (\<lambda>v. fst v = x) sc = Some v" "v \<in> set sc" "fst v = x"
proof -
  obtain v where v: "find (\<lambda>v. fst v = x) sc = Some v"
    using assms by (cases "find (\<lambda>v. fst v = x) sc") (auto simp: find_None_iff names_def)
  then have "v \<in> set sc" "fst v = x" by (auto simp: find_Some_iff)
  with v that show ?thesis by blast
qed

lemma find_filter_neq:
  assumes "x \<noteq> y"
  shows "find (\<lambda>v. fst v = y) (filter (\<lambda>u. fst u \<noteq> x) sc) = find (\<lambda>v. fst v = y) sc"
  using assms by (induction sc) auto

lemma filter_neq_commute:
  "filter (\<lambda>u. fst u \<noteq> y) (filter (\<lambda>u. fst u \<noteq> x) sc) = filter (\<lambda>u. fst u \<noteq> x) (filter (\<lambda>u. fst u \<noteq> y) sc)"
  by (induction sc) auto

lemma valid_on_put_back:
  assumes "distinct (names sc)" "v \<in> set sc" "k < length (snd v)"
    "valid_on (filter (\<lambda>u. fst u \<noteq> fst v) sc) \<sigma>"
  shows "valid_on sc (\<sigma>(fst v := k))"
  unfolding valid_on_def
proof
  fix u assume u: "u \<in> set sc"
  show "(\<sigma>(fst v := k)) (fst u) < length (snd u)"
  proof (cases "fst u = fst v")
    case True
    then have "u = v" using registered_unique [OF assms(1) u assms(2)] by simp
    then show ?thesis using assms(3) by simp
  next
    case False
    then show ?thesis using assms(4) u by (simp add: valid_on_def)
  qed
qed

text \<open>The table left by two reductions, whichever came first.\<close>

lemma reduce_twice:
  assumes d: "distinct (names (scope f))" and xy: "x \<noteq> y"
    and vx: "find (\<lambda>v. fst v = x) (scope f) = Some vx" and kx: "index_of (snd vx) s = Some kx"
    and vy: "find (\<lambda>v. fst v = y) (scope f) = Some vy" and ky: "index_of (snd vy) t = Some ky"
  shows "reduce_then f x s y t =
     Inr (tabulate (filter (\<lambda>u. fst u \<noteq> y) (filter (\<lambda>u. fst u \<noteq> x) (scope f)))
            (\<lambda>\<sigma>. lookup f (\<sigma>(x := kx, y := ky))))"
proof -
  let ?sx = "filter (\<lambda>u. fst u \<noteq> x) (scope f)"
  let ?sxy = "filter (\<lambda>u. fst u \<noteq> y) ?sx"
  let ?g = "tabulate ?sx (\<lambda>\<sigma>. lookup f (\<sigma>(x := kx)))"
  have mx: "vx \<in> set (scope f)" "fst vx = x" and my: "vy \<in> set (scope f)" "fst vy = y"
    using vx vy by (auto simp: find_Some_iff)
  have 1: "reduce f x s = Inr ?g" by (simp add: reduce_def vx kx)
  have 2: "reduce ?g y t = Inr (tabulate ?sxy (\<lambda>\<sigma>. lookup ?g (\<sigma>(y := ky))))"
    by (simp add: reduce_def find_filter_neq [OF xy] vy ky)
  have dx: "distinct (names ?sx)" using d by (rule distinct_names_filter)
  have myx: "vy \<in> set ?sx" using my xy by auto
  have "tabulate ?sxy (\<lambda>\<sigma>. lookup ?g (\<sigma>(y := ky))) = tabulate ?sxy (\<lambda>\<sigma>. lookup f (\<sigma>(x := kx, y := ky)))"
  proof (rule tabulate_cong)
    fix ds assume ds: "ds \<in> set (assignments ?sxy)"
    let ?\<tau> = "assignment_of ?sxy ds"
    have "distinct (names ?sxy)" using dx by (rule distinct_names_filter)
    then have "valid_on ?sxy ?\<tau>"
      using ds by (rule assignment_of_valid)
    then have "valid_on ?sx (?\<tau>(y := ky))"
      using valid_on_put_back [OF dx myx, of ky ?\<tau>] ky my(2) by (simp add: index_of_less)
    then have "lookup ?g (?\<tau>(y := ky)) = lookup f ((?\<tau>(y := ky))(x := kx))"
      by (rule lookup_removed [where G = "\<lambda>F. F kx"]) simp
    also have "(?\<tau>(y := ky))(x := kx) = ?\<tau>(x := kx, y := ky)"
      using xy by (simp add: fun_upd_twist)
    finally show "lookup ?g (?\<tau>(y := ky)) = lookup f (?\<tau>(x := kx, y := ky))" .
  qed
  then show ?thesis by (simp add: reduce_then_def 1 2)
qed

lemma reduce_then_commute:
  assumes d: "distinct (names (scope f))" and xy: "x \<noteq> y"
    and x: "x \<in> set (names (scope f))" and y: "y \<in> set (names (scope f))"
  shows "reduce_then f x s y t = reduce_then f y t x s"
proof -
  obtain vx where vx: "find (\<lambda>v. fst v = x) (scope f) = Some vx" using find_in_scope [OF x] by blast
  obtain vy where vy: "find (\<lambda>v. fst v = y) (scope f) = Some vy" using find_in_scope [OF y] by blast
  show ?thesis
  proof (cases "index_of (snd vx) s")
    case None
    note nx = this
    show ?thesis
    proof (cases "index_of (snd vy) t")
      case None
      then show ?thesis by (simp add: reduce_then_def reduce_def vx vy nx)
    next
      case (Some ky)
      then show ?thesis
        using xy by (simp add: reduce_then_def reduce_def vx vy nx find_filter_neq)
    qed
  next
    case (Some kx)
    note sx = this
    show ?thesis
    proof (cases "index_of (snd vy) t")
      case None
      then show ?thesis
        using xy by (simp add: reduce_then_def reduce_def vx vy sx find_filter_neq)
    next
      case (Some ky)
      have "reduce_then f x s y t =
          Inr (tabulate (filter (\<lambda>u. fst u \<noteq> y) (filter (\<lambda>u. fst u \<noteq> x) (scope f)))
            (\<lambda>\<sigma>. lookup f (\<sigma>(x := kx, y := ky))))"
        using reduce_twice [OF d xy vx sx vy Some] .
      moreover have "reduce_then f y t x s =
          Inr (tabulate (filter (\<lambda>u. fst u \<noteq> x) (filter (\<lambda>u. fst u \<noteq> y) (scope f)))
            (\<lambda>\<sigma>. lookup f (\<sigma>(y := ky, x := kx))))"
        using reduce_twice [OF d xy [symmetric] vy Some vx sx] .
      moreover have "(\<lambda>\<sigma>::assignment. lookup f (\<sigma>(y := ky, x := kx))) = (\<lambda>\<sigma>. lookup f (\<sigma>(x := kx, y := ky)))"
        using xy by (simp add: fun_upd_twist)
      ultimately show ?thesis by (simp only: filter_neq_commute [of x y])
    qed
  qed
qed

subsection \<open>Applying evidence\<close>

lemma distinct_assignments: "distinct (assignments sc)"
  unfolding assignments_def by (rule distinct_product_lists) auto

lemma radix_assignments_nth:
  assumes "i < length (assignments sc)"
  shows "radix (cards sc) (assignments sc ! i) = i"
proof -
  let ?ds = "assignments sc ! i"
  have m: "?ds \<in> set (assignments sc)" using assms by simp
  then have b: "length ?ds = length sc" "\<forall>j<length sc. ?ds ! j < length (snd (sc ! j))"
    by (auto simp: in_assignments)
  have "radix (cards sc) ?ds < length (assignments sc)"
    unfolding length_assignments using b by (intro radix_less) (auto simp: cards_def)
  moreover have "assignments sc ! radix (cards sc) ?ds = assignments sc ! i"
    using b by (rule assignments_nth_radix)
  ultimately show ?thesis
    using assms distinct_assignments [of sc] by (simp add: nth_eq_iff_index_eq)
qed

lemma tabulate_lookup:
  assumes "wf_factor reg f"
  shows "tabulate (scope f) (lookup f) = f"
proof -
  let ?sc = "scope f"
  have d: "distinct (names ?sc)" and l: "length (vals f) = length (assignments ?sc)"
    using assms by (auto simp: wf_factor_def length_assignments)
  have "map (\<lambda>ds. lookup f (assignment_of ?sc ds)) (assignments ?sc) = vals f"
  proof (rule nth_equalityI)
    show "length (map (\<lambda>ds. lookup f (assignment_of ?sc ds)) (assignments ?sc)) = length (vals f)"
      using l by simp
  next
    fix i assume "i < length (map (\<lambda>ds. lookup f (assignment_of ?sc ds)) (assignments ?sc))"
    then have i: "i < length (assignments ?sc)" by simp
    then have "assignments ?sc ! i \<in> set (assignments ?sc)" by simp
    then have "length (assignments ?sc ! i) = length ?sc" by (simp add: in_assignments)
    then have "digits ?sc (assignment_of ?sc (assignments ?sc ! i)) = assignments ?sc ! i"
      using d by (intro digits_assignment_of)
    then have "lookup f (assignment_of ?sc (assignments ?sc ! i)) = vals f ! i"
      by (simp add: lookup_def radix_assignments_nth [OF i])
    then show "map (\<lambda>ds. lookup f (assignment_of ?sc ds)) (assignments ?sc) ! i = vals f ! i"
      using i by simp
  qed
  then show ?thesis by (simp add: tabulate_def)
qed

lemma observe_outside: "y \<notin> set (map fst ev) \<Longrightarrow> observe reg ev \<sigma> y = \<sigma> y"
  by (induction ev) auto

lemma state_index_less:
  assumes "valid_entry reg e" "map_of reg (fst e) = Some ss"
  shows "state_index reg e < length ss"
proof -
  have "snd e \<in> set ss" using assms by (simp add: valid_entry_def)
  then obtain k where "index_of ss (snd e) = Some k"
    by (cases "index_of ss (snd e)") (auto simp: index_of_None)
  then show ?thesis using assms(2) by (simp add: state_index_def index_of_less)
qed

lemma observe_key_less:
  assumes "\<forall>e\<in>set ev. valid_entry reg e" "y \<in> set (map fst ev)" "map_of reg y = Some ss"
  shows "observe reg ev \<sigma> y < length ss"
  using assms
proof (induction ev)
  case Nil
  then show ?case by simp
next
  case (Cons e ev)
  show ?case
  proof (cases "fst e = y")
    case True
    then show ?thesis using Cons.prems state_index_less [of reg e ss] by simp
  next
    case False
    then show ?thesis using Cons by simp
  qed
qed

lemma valid_on_observe:
  assumes "distinct (names reg)" "set sc \<subseteq> set reg" "\<forall>e\<in>set ev. valid_entry reg e"
    "valid_on (filter (\<lambda>u. fst u \<notin> set (map fst ev)) sc) \<sigma>"
  shows "valid_on sc (observe reg ev \<sigma>)"
  unfolding valid_on_def
proof
  fix u assume u: "u \<in> set sc"
  then have "u \<in> set reg" using assms(2) by auto
  then have m: "map_of reg (fst u) = Some (snd u)"
    using assms(1) by (intro map_of_is_SomeI) (auto simp: names_def)
  show "observe reg ev \<sigma> (fst u) < length (snd u)"
  proof (cases "fst u \<in> set (map fst ev)")
    case True
    then show ?thesis using observe_key_less [OF assms(3) _ m] by simp
  next
    case False
    then show ?thesis using assms(4) u by (simp add: observe_outside valid_on_def)
  qed
qed

lemma wf_restrict: "wf_factor reg f \<Longrightarrow> wf_factor reg (restrict reg ev f)"
  unfolding restrict_def
  by (intro wf_tabulate distinct_names_filter) (auto simp: wf_factor_def)

lemma restrict_Nil: "wf_factor reg f \<Longrightarrow> restrict reg [] f = f"
  by (simp add: restrict_def tabulate_lookup)

text \<open>One step: reducing by the entry and restricting by the rest restricts by all.\<close>

lemma restrict_Cons_in:
  assumes r: "distinct (names reg)" and f: "wf_factor reg f" and v: "\<forall>e\<in>set ev. valid_entry reg e"
    and x: "x \<in> set (names (scope f))" and m: "map_of reg x = Some ss" and k: "index_of ss s = Some k"
  shows "restrict reg ev (tabulate (filter (\<lambda>u. fst u \<noteq> x) (scope f)) (\<lambda>\<sigma>. lookup f (\<sigma>(x := k))))
       = restrict reg ((x, s) # ev) f"
proof -
  let ?sx = "filter (\<lambda>u. fst u \<noteq> x) (scope f)"
  let ?g = "tabulate ?sx (\<lambda>\<sigma>. lookup f (\<sigma>(x := k)))"
  let ?sc = "filter (\<lambda>u. fst u \<notin> set (map fst ev)) ?sx"
  have sc: "filter (\<lambda>u. fst u \<notin> set (map fst ((x, s) # ev))) (scope f) = ?sc"
    by (induction "scope f") auto
  have si: "state_index reg (x, s) = k" by (simp add: state_index_def m k)
  have sub: "set ?sx \<subseteq> set reg" using f by (auto simp: wf_factor_def)
  have d: "distinct (names ?sc)"
    using f by (intro distinct_names_filter) (simp add: wf_factor_def)
  have "tabulate ?sc (\<lambda>\<sigma>. lookup ?g (observe reg ev \<sigma>))
      = tabulate ?sc (\<lambda>\<sigma>. lookup f (observe reg ((x, s) # ev) \<sigma>))"
  proof (rule tabulate_cong)
    fix ds assume ds: "ds \<in> set (assignments ?sc)"
    let ?\<tau> = "assignment_of ?sc ds"
    have "valid_on ?sc ?\<tau>" using d ds by (rule assignment_of_valid)
    then have "valid_on ?sx (observe reg ev ?\<tau>)"
      by (rule valid_on_observe [OF r sub v])
    then have "lookup ?g (observe reg ev ?\<tau>) = lookup f ((observe reg ev ?\<tau>)(x := k))"
      by (rule lookup_removed [where G = "\<lambda>F. F k"]) simp
    then show "lookup ?g (observe reg ev ?\<tau>) = lookup f (observe reg ((x, s) # ev) ?\<tau>)"
      by (simp add: si)
  qed
  then show ?thesis unfolding restrict_def sc by simp
qed

lemma restrict_Cons_out:
  assumes x: "x \<notin> set (names (scope f))"
  shows "restrict reg ev f = restrict reg ((x, s) # ev) f"
proof -
  have sc: "filter (\<lambda>u. fst u \<notin> set (map fst ((x, s) # ev))) (scope f)
      = filter (\<lambda>u. fst u \<notin> set (map fst ev)) (scope f)"
    using x by (intro filter_cong) (auto simp: names_def)
  have "lookup f (observe reg ((x, s) # ev) \<sigma>) = lookup f (observe reg ev \<sigma>)" for \<sigma>
    using x by (intro lookup_cong) auto
  then show ?thesis unfolding restrict_def sc by simp
qed

lemma reduce_each_eq:
  assumes r: "distinct (names reg)" and fs: "\<forall>f\<in>set fs. wf_factor reg f"
    and m: "map_of reg x = Some ss" and k: "index_of ss s = Some k"
  shows "reduce_each fs x s =
     Inr (map (\<lambda>f. if x \<in> set (names (scope f))
                    then tabulate (filter (\<lambda>u. fst u \<noteq> x) (scope f)) (\<lambda>\<sigma>. lookup f (\<sigma>(x := k)))
                    else f) fs)"
  using fs
proof (induction fs)
  case Nil
  then show ?case by simp
next
  case (Cons f fs)
  then show ?case using reduce_eq [OF r _ _ m k, of f] by simp
qed

lemma apply_evidence_eq:
  assumes r: "distinct (names reg)"
  shows "\<forall>f\<in>set fs. wf_factor reg f \<Longrightarrow> \<forall>e\<in>set ev. valid_entry reg e \<Longrightarrow>
     apply_evidence fs ev = Inr (map (restrict reg ev) fs)"
proof (induction ev arbitrary: fs)
  case Nil
  then show ?case by (simp add: restrict_Nil map_idI)
next
  case (Cons e ev)
  obtain x s where e: "e = (x, s)" by (cases e)
  from Cons.prems(2) e obtain ss where m: "map_of reg x = Some ss" and s: "s \<in> set ss"
    by (auto simp: valid_entry_def split: option.splits)
  then obtain k where k: "index_of ss s = Some k"
    by (cases "index_of ss s") (auto simp: index_of_None)
  let ?r1 = "\<lambda>f. if x \<in> set (names (scope f))
                    then tabulate (filter (\<lambda>u. fst u \<noteq> x) (scope f)) (\<lambda>\<sigma>. lookup f (\<sigma>(x := k)))
                    else f"
  have 1: "reduce_each fs x s = Inr (map ?r1 fs)"
    using reduce_each_eq [OF r Cons.prems(1) m k] .
  have w: "\<forall>g\<in>set (map ?r1 fs). wf_factor reg g"
    using Cons.prems(1) by (auto intro: wf_removed)
  have v: "\<forall>e\<in>set ev. valid_entry reg e" using Cons.prems(2) by simp
  have 2: "apply_evidence (map ?r1 fs) ev = Inr (map (restrict reg ev) (map ?r1 fs))"
    using Cons.IH [OF w v] .
  have "restrict reg ev (?r1 f) = restrict reg ((x, s) # ev) f" if "f \<in> set fs" for f
  proof (cases "x \<in> set (names (scope f))")
    case True
    then show ?thesis
      using restrict_Cons_in [OF r _ v True m k] Cons.prems(1) that by simp
  next
    case False
    then show ?thesis using restrict_Cons_out [OF False] by simp
  qed
  then have "map (restrict reg ev) (map ?r1 fs) = map (restrict reg (e # ev)) fs"
    unfolding e by simp
  then show ?case by (simp add: e 1 2)
qed

subsection \<open>Products of several factors and elimination\<close>

lemma wf_product_all: "\<forall>f\<in>set fs. wf_factor reg f \<Longrightarrow> wf_factor reg (product_all fs)"
proof (induction fs)
  case Nil
  show ?case by (simp add: wf_factor_def names_def cards_def)
next
  case (Cons f fs)
  then have "wf_factor reg f" "wf_factor reg (product_all fs)" by simp_all
  then show ?case by (simp add: wf_product)
qed

lemma names_product_all:
  "set (names (scope (product_all fs))) = (\<Union>f\<in>set fs. set (names (scope f)))"
proof (induction fs)
  case Nil
  show ?case by (simp add: names_def)
next
  case (Cons f fs)
  then show ?case by (simp add: names_product)
qed

lemma lookup_unit: "lookup \<lparr>scope = [], vals = [1]\<rparr> \<sigma> = 1"
  by (simp add: lookup_def cards_def digits_def)

lemma lookup_product_all:
  assumes "\<forall>f\<in>set fs. wf_factor reg f" "valid_on reg \<sigma>"
  shows "lookup (product_all fs) \<sigma> = joint fs \<sigma>"
  using assms(1)
proof (induction fs)
  case Nil
  then show ?case by (simp add: joint_def lookup_unit)
next
  case (Cons f fs)
  have w: "wf_factor reg (product_all (f # fs))"
    using Cons.prems by (rule wf_product_all)
  have "set (scope (product_all (f # fs))) \<subseteq> set reg"
    using w unfolding wf_factor_def by blast
  then have "valid_on (scope (product_all (f # fs))) \<sigma>"
    using assms(2) by (rule valid_on_subset)
  then have "lookup (factor_product f (product_all fs)) \<sigma> = lookup f \<sigma> * lookup (product_all fs) \<sigma>"
    unfolding product_all.simps by (rule lookup_product)
  moreover have "lookup (product_all fs) \<sigma> = joint fs \<sigma>"
    using Cons by simp
  ultimately show ?case by (simp add: joint_def)
qed

lemma joint_split:
  "joint fs \<sigma> = joint (filter P fs) \<sigma> * joint (filter (\<lambda>f. \<not> P f) fs) \<sigma>"
  by (induction fs) (simp_all add: joint_def)

lemma joint_append: "joint (fs @ gs) \<sigma> = joint fs \<sigma> * joint gs \<sigma>"
  by (simp add: joint_def)

lemma joint_cong:
  assumes "\<forall>f\<in>set fs. \<forall>x\<in>set (names (scope f)). \<sigma> x = \<tau> x"
  shows "joint fs \<sigma> = joint fs \<tau>"
proof -
  have "lookup f \<sigma> = lookup f \<tau>" if "f \<in> set fs" for f
    using assms that by (intro lookup_cong) auto
  then have "map (\<lambda>f. lookup f \<sigma>) fs = map (\<lambda>f. lookup f \<tau>) fs"
    by simp
  then show ?thesis by (simp only: joint_def)
qed

text \<open>One elimination step: the new factor list, and what its product is.\<close>

lemma eliminate_eq:
  assumes r: "distinct (names reg)" and w: "\<forall>f\<in>set fs. wf_factor reg f"
    and x: "\<exists>f\<in>set fs. x \<in> set (names (scope f))" and m: "map_of reg x = Some ss"
  shows "eliminate fs x = Inr (eliminated fs x (length ss))"
proof -
  let ?P = "product_all (filter (\<lambda>f. x \<in> set (names (scope f))) fs)"
  have "wf_factor reg ?P" by (rule wf_product_all) (use w in simp)
  moreover have "x \<in> set (names (scope ?P))" using x by (auto simp: names_product_all)
  ultimately have "marginalize ?P x =
     Inr (tabulate (filter (\<lambda>u. fst u \<noteq> x) (scope ?P))
            (\<lambda>\<sigma>. sum_list (map (\<lambda>k. lookup ?P (\<sigma>(x := k))) [0..<length ss])))"
    using marginalize_eq [OF r _ _ m] by blast
  then show ?thesis by (simp add: eliminate_def eliminated_def)
qed

lemma wf_eliminated:
  assumes "\<forall>f\<in>set fs. wf_factor reg f"
  shows "\<forall>g\<in>set (eliminated fs x n). wf_factor reg g"
proof -
  have "wf_factor reg (product_all (filter (\<lambda>f. x \<in> set (names (scope f))) fs))"
    by (rule wf_product_all) (use assms in simp)
  then have "wf_factor reg (tabulate (filter (\<lambda>u. fst u \<noteq> x)
        (scope (product_all (filter (\<lambda>f. x \<in> set (names (scope f))) fs)))) g)" for g
    by (rule wf_removed)
  then show ?thesis using assms by (simp add: eliminated_def)
qed

lemma names_eliminated:
  "(\<Union>g\<in>set (eliminated fs x n). set (names (scope g))) = (\<Union>f\<in>set fs. set (names (scope f))) - {x}"
proof -
  let ?G = "filter (\<lambda>f. x \<in> set (names (scope f))) fs"
  let ?R = "filter (\<lambda>f. x \<notin> set (names (scope f))) fs"
  have "(\<Union>g\<in>set (eliminated fs x n). set (names (scope g)))
      = (\<Union>f\<in>set ?R. set (names (scope f))) \<union> ((\<Union>f\<in>set ?G. set (names (scope f))) - {x})"
    by (simp add: eliminated_def names_filter_neq names_product_all Un_commute)
  also have "\<dots> = (\<Union>f\<in>set fs. set (names (scope f))) - {x}"
    by auto
  finally show ?thesis .
qed

lemma joint_eliminated:
  assumes r: "distinct (names reg)" and w: "\<forall>f\<in>set fs. wf_factor reg f"
    and m: "(x, ss) \<in> set reg" and v: "valid_on reg \<sigma>"
  shows "joint (eliminated fs x (length ss)) \<sigma> = sum_list (map (\<lambda>k. joint fs (\<sigma>(x := k))) [0..<length ss])"
proof -
  let ?G = "filter (\<lambda>f. x \<in> set (names (scope f))) fs"
  let ?R = "filter (\<lambda>f. x \<notin> set (names (scope f))) fs"
  let ?P = "product_all ?G"
  let ?g = "tabulate (filter (\<lambda>u. fst u \<noteq> x) (scope ?P))
        (\<lambda>\<sigma>. sum_list (map (\<lambda>k. lookup ?P (\<sigma>(x := k))) [0..<length ss]))"
  have wG: "\<forall>f\<in>set ?G. wf_factor reg f" using w by auto
  have wP: "wf_factor reg ?P" using wG by (rule wf_product_all)
  have "set (filter (\<lambda>u. fst u \<noteq> x) (scope ?P)) \<subseteq> set reg"
    using wP by (auto simp: wf_factor_def)
  then have "valid_on (filter (\<lambda>u. fst u \<noteq> x) (scope ?P)) \<sigma>"
    using v by (rule valid_on_subset)
  then have lg: "lookup ?g \<sigma> = sum_list (map (\<lambda>k. lookup ?P (\<sigma>(x := k))) [0..<length ss])"
    by (rule lookup_removed [where G = "\<lambda>F. sum_list (map F [0..<length ss])"]) simp
  have tm: "joint ?R \<sigma> * lookup ?P (\<sigma>(x := k)) = joint fs (\<sigma>(x := k))" if "k < length ss" for k
  proof -
    have "valid_on reg (\<sigma>(x := k))"
      using valid_on_update [OF r v m] that by simp
    then have "lookup ?P (\<sigma>(x := k)) = joint ?G (\<sigma>(x := k))"
      by (rule lookup_product_all [OF wG])
    moreover have "joint ?R \<sigma> = joint ?R (\<sigma>(x := k))"
      by (rule joint_cong) auto
    moreover have "joint fs (\<sigma>(x := k)) = joint ?G (\<sigma>(x := k)) * joint ?R (\<sigma>(x := k))"
      by (rule joint_split)
    ultimately show ?thesis by (simp only: mult.commute)
  qed
  have e: "joint (eliminated fs x (length ss)) \<sigma> = joint ?R \<sigma> * lookup ?g \<sigma>"
    unfolding eliminated_def joint_append by (simp add: joint_def)
  have "map (\<lambda>k. joint ?R \<sigma> * lookup ?P (\<sigma>(x := k))) [0..<length ss]
      = map (\<lambda>k. joint fs (\<sigma>(x := k))) [0..<length ss]"
    by (rule map_cong [OF refl]) (simp add: tm)
  then have "joint ?R \<sigma> * sum_list (map (\<lambda>k. lookup ?P (\<sigma>(x := k))) [0..<length ss])
      = sum_list (map (\<lambda>k. joint fs (\<sigma>(x := k))) [0..<length ss])"
    by (simp only: sum_list_const_mult [symmetric])
  then show ?thesis unfolding e lg .
qed

subsection \<open>Sums over joint states and the elimination loop\<close>

lemma sum_over_cong:
  assumes r: "distinct (names reg)" and h: "\<And>\<tau>. valid_on reg \<tau> \<Longrightarrow> h \<tau> = h' \<tau>"
  shows "set vs \<subseteq> set reg \<Longrightarrow> valid_on reg \<sigma> \<Longrightarrow> sum_over vs h \<sigma> = sum_over vs h' \<sigma>"
proof (induction vs arbitrary: \<sigma>)
  case Nil
  then show ?case by (simp add: h)
next
  case (Cons v vs)
  have "sum_over vs h (\<sigma>(fst v := k)) = sum_over vs h' (\<sigma>(fst v := k))" if "k < length (snd v)" for k
  proof -
    have "v \<in> set reg" using Cons.prems(1) by simp
    then have vv: "valid_on reg (\<sigma>(fst v := k))"
      using Cons.prems(2) that by (intro valid_on_update [OF r])
    have "set vs \<subseteq> set reg" using Cons.prems(1) by simp
    then show ?thesis using vv by (rule Cons.IH)
  qed
  then have "map (\<lambda>k. sum_over vs h (\<sigma>(fst v := k))) [0..<length (snd v)]
      = map (\<lambda>k. sum_over vs h' (\<sigma>(fst v := k))) [0..<length (snd v)]"
    by simp
  then show ?case by (simp only: sum_over.simps)
qed

lemma sum_over_snoc:
  "sum_over (vs @ [v]) h \<sigma>
     = sum_over vs (\<lambda>\<tau>. sum_list (map (\<lambda>k. h (\<tau>(fst v := k))) [0..<length (snd v)])) \<sigma>"
  by (induction vs arbitrary: \<sigma>) simp_all

lemma registered_map_of:
  assumes "distinct (names reg)" "v \<in> set reg"
  shows "map_of reg (fst v) = Some (snd v)"
  using assms by (intro map_of_is_SomeI) (auto simp: names_def)

lemma eliminate_all_eq:
  assumes r: "distinct (names reg)"
  shows "\<forall>f\<in>set fs. wf_factor reg f \<Longrightarrow> set vs \<subseteq> set reg \<Longrightarrow> distinct (names vs) \<Longrightarrow>
     \<forall>v\<in>set vs. \<exists>f\<in>set fs. fst v \<in> set (names (scope f)) \<Longrightarrow>
     \<exists>gs. eliminate_all fs (names vs) = Inr gs \<and> (\<forall>g\<in>set gs. wf_factor reg g) \<and>
          (\<Union>g\<in>set gs. set (names (scope g))) = (\<Union>f\<in>set fs. set (names (scope f))) - set (names vs) \<and>
          (\<forall>\<sigma>. valid_on reg \<sigma> \<longrightarrow> joint gs \<sigma> = sum_over (rev vs) (joint fs) \<sigma>)"
proof (induction vs arbitrary: fs)
  case Nil
  then show ?case by (simp add: names_def)
next
  case (Cons v vs)
  obtain x ss where v: "v = (x, ss)" by (cases v)
  have vin: "(x, ss) \<in> set reg" using Cons.prems(2) v by simp
  have m: "map_of reg x = Some ss" using registered_map_of [OF r vin] by simp
  let ?fs1 = "eliminated fs x (length ss)"
  have 1: "eliminate fs x = Inr ?fs1"
    using Cons.prems(4) v by (intro eliminate_eq [OF r Cons.prems(1) _ m]) simp
  have w1: "\<forall>g\<in>set ?fs1. wf_factor reg g" using Cons.prems(1) by (rule wf_eliminated)
  have n1: "(\<Union>g\<in>set ?fs1. set (names (scope g))) = (\<Union>f\<in>set fs. set (names (scope f))) - {x}"
    by (rule names_eliminated)
  have xn: "x \<notin> set (names vs)" using Cons.prems(3) v by (simp add: names_def)
  have occ: "\<forall>u\<in>set vs. \<exists>g\<in>set ?fs1. fst u \<in> set (names (scope g))"
  proof
    fix u assume u: "u \<in> set vs"
    then have "fst u \<noteq> x" using xn by (auto simp: names_def)
    moreover have "fst u \<in> (\<Union>f\<in>set fs. set (names (scope f)))" using Cons.prems(4) u by auto
    ultimately have "fst u \<in> (\<Union>g\<in>set ?fs1. set (names (scope g)))" unfolding n1 by simp
    then show "\<exists>g\<in>set ?fs1. fst u \<in> set (names (scope g))" by blast
  qed
  have "set vs \<subseteq> set reg" "distinct (names vs)" using Cons.prems(2,3) by (simp_all add: names_def)
  from Cons.IH [OF w1 this occ] obtain gs where gs: "eliminate_all ?fs1 (names vs) = Inr gs"
    "\<forall>g\<in>set gs. wf_factor reg g"
    "(\<Union>g\<in>set gs. set (names (scope g))) = (\<Union>f\<in>set ?fs1. set (names (scope f))) - set (names vs)"
    "\<forall>\<sigma>. valid_on reg \<sigma> \<longrightarrow> joint gs \<sigma> = sum_over (rev vs) (joint ?fs1) \<sigma>"
    by blast
  have e: "eliminate_all fs (names (v # vs)) = Inr gs"
    by (simp add: names_def v 1 gs(1) [unfolded names_def])
  have n: "(\<Union>g\<in>set gs. set (names (scope g))) = (\<Union>f\<in>set fs. set (names (scope f))) - set (names (v # vs))"
    unfolding gs(3) n1 by (auto simp: names_def v)
  have j: "joint gs \<sigma> = sum_over (rev (v # vs)) (joint fs) \<sigma>" if val: "valid_on reg \<sigma>" for \<sigma>
  proof -
    have "joint gs \<sigma> = sum_over (rev vs) (joint ?fs1) \<sigma>" using gs(4) val by blast
    also have "\<dots> = sum_over (rev vs) (\<lambda>\<tau>. sum_list (map (\<lambda>k. joint fs (\<tau>(x := k))) [0..<length ss])) \<sigma>"
    proof (rule sum_over_cong [OF r _ _ val])
      show "set (rev vs) \<subseteq> set reg" using Cons.prems(2) by simp
    next
      fix \<tau> assume "valid_on reg \<tau>"
      then show "joint ?fs1 \<tau> = sum_list (map (\<lambda>k. joint fs (\<tau>(x := k))) [0..<length ss])"
        by (rule joint_eliminated [OF r Cons.prems(1) vin])
    qed
    also have "\<dots> = sum_over (rev vs @ [v]) (joint fs) \<sigma>"
      by (simp add: sum_over_snoc v)
    finally show ?thesis by simp
  qed
  show ?case using e gs(2) n j by blast
qed

subsection \<open>Restricted factors and the final product\<close>

lemma observe_key_indep:
  "y \<in> set (map fst ev) \<Longrightarrow> observe reg ev \<sigma> y = observe reg ev \<tau> y"
  by (induction ev) auto

lemma scope_restrict: "scope (restrict reg ev f) = filter (\<lambda>u. fst u \<notin> set (map fst ev)) (scope f)"
  by (simp add: restrict_def)

lemma lookup_restrict:
  assumes "wf_factor reg f" "valid_on reg \<sigma>"
  shows "lookup (restrict reg ev f) \<sigma> = lookup f (observe reg ev \<sigma>)"
proof -
  let ?sc = "filter (\<lambda>u. fst u \<notin> set (map fst ev)) (scope f)"
  have "set ?sc \<subseteq> set reg" using assms(1) by (auto simp: wf_factor_def)
  then have v: "valid_on ?sc \<sigma>" using assms(2) by (rule valid_on_subset)
  show ?thesis
    unfolding restrict_def
  proof (rule lookup_tabulate_local [OF v])
    fix \<tau> assume a: "\<forall>x\<in>set (names ?sc). \<tau> x = \<sigma> x"
    show "lookup f (observe reg ev \<tau>) = lookup f (observe reg ev \<sigma>)"
    proof (rule lookup_cong, rule ballI)
      fix y assume y: "y \<in> set (names (scope f))"
      show "observe reg ev \<tau> y = observe reg ev \<sigma> y"
      proof (cases "y \<in> set (map fst ev)")
        case True
        then show ?thesis by (rule observe_key_indep)
      next
        case False
        then have "y \<in> set (names ?sc)" using y by (auto simp: names_def)
        then show ?thesis using a False by (simp add: observe_outside)
      qed
    qed
  qed
qed

lemma joint_restrict:
  assumes "\<forall>f\<in>set fs. wf_factor reg f" "valid_on reg \<sigma>"
  shows "joint (map (restrict reg ev) fs) \<sigma> = joint fs (observe reg ev \<sigma>)"
proof -
  have "lookup (restrict reg ev f) \<sigma> = lookup f (observe reg ev \<sigma>)" if "f \<in> set fs" for f
    using assms that by (intro lookup_restrict) auto
  then have "map (\<lambda>f. lookup f \<sigma>) (map (restrict reg ev) fs) = map (\<lambda>f. lookup f (observe reg ev \<sigma>)) fs"
    by simp
  then show ?thesis by (simp only: joint_def)
qed

lemma single_scope:
  assumes r: "distinct (names reg)" and d: "distinct (names sc)" and s: "set sc \<subseteq> set reg"
    and n: "set (names sc) = {q}" and q: "(q, sq) \<in> set reg"
  shows "sc = [(q, sq)]"
proof -
  obtain v rest where sc: "sc = v # rest" using n by (cases sc) (auto simp: names_def)
  have fv: "fst v = q" using n sc by (auto simp: names_def)
  have "set (names rest) \<subseteq> {q}" using n sc by (auto simp: names_def)
  moreover have "q \<notin> set (names rest)" using d sc fv by (simp add: names_def)
  ultimately have "rest = []" by (cases rest) (auto simp: names_def)
  moreover have "v = (q, sq)"
    using registered_unique [OF r _ q, of v] s sc fv by simp
  ultimately show ?thesis using sc by simp
qed

lemma assignments_single: "assignments [(q, sq)] = map (\<lambda>k. [k]) [0..<length sq]"
  by (simp add: assignments_def)

lemma assignment_of_single: "assignment_of [(q, sq)] [k] = (\<lambda>x. 0)(q := k)"
  by (auto simp: assignment_of_def names_def fun_eq_iff)

lemma vals_single:
  assumes "wf_factor reg f" "scope f = [(q, sq)]"
  shows "vals f = map (\<lambda>k. lookup f ((\<lambda>x. 0)(q := k))) [0..<length sq]"
proof -
  have "tabulate (scope f) (lookup f) = f" using assms(1) by (rule tabulate_lookup)
  then have "vals f = vals (tabulate [(q, sq)] (lookup f))" by (simp add: assms(2))
  also have "\<dots> = map (\<lambda>k. lookup f ((\<lambda>x. 0)(q := k))) [0..<length sq]"
    by (simp add: tabulate_def assignments_single assignment_of_single comp_def)
  finally show ?thesis .
qed

lemma valid_on_zero: "\<forall>v\<in>set reg. snd v \<noteq> [] \<Longrightarrow> valid_on reg (\<lambda>x. 0)"
  by (auto simp: valid_on_def)

lemma normalize_factor_eq:
  "normalize_factor f =
     (if sum_list (vals f) \<le> 1 / 10 ^ 12 then Inl DegenerateFactor
      else Inr \<lparr>scope = scope f, vals = map (\<lambda>p. p / sum_list (vals f)) (vals f)\<rparr>)"
  by (simp add: normalize_factor_def Let_def)

subsection \<open>What a query on one variable returns\<close>

lemma own_cpd:
  assumes "map (\<lambda>f. take 1 (scope f)) cpds = map (\<lambda>v. [v]) reg" "v \<in> set reg"
  shows "\<exists>f\<in>set cpds. v \<in> set (scope f)"
proof -
  obtain i where i: "i < length reg" "reg ! i = v" using assms(2) by (auto simp: in_set_conv_nth)
  have l: "length cpds = length reg" using assms(1) by (metis length_map)
  have "map (\<lambda>f. take 1 (scope f)) cpds ! i = map (\<lambda>v. [v]) reg ! i" using assms(1) by simp
  then have "take 1 (scope (cpds ! i)) = [v]" using i l by simp
  then have "v \<in> set (take 1 (scope (cpds ! i)))" by simp
  then have "v \<in> set (scope (cpds ! i))" by (rule in_set_takeD)
  then show ?thesis using i l by (metis nth_mem)
qed

lemma query_single:
  assumes wf: "wf_network net" and q: "(q, sq) \<in> set (net_variables net)"
    and noq: "q \<notin> set (map fst ev)" and valid: "\<forall>e\<in>set ev. valid_entry (net_variables net) e"
  shows "query net [q] ev =
     (if sum_list (map (unnormalized net q ev) [0..<length sq]) \<le> 1 / 10 ^ 12
      then Inl ZeroProbabilityEvidence
      else Inr \<lparr>scope = [(q, sq)],
                vals = map (\<lambda>k. unnormalized net q ev k / sum_list (map (unnormalized net q ev) [0..<length sq]))
                         [0..<length sq]\<rparr>)"
proof -
  let ?reg = "net_variables net"
  let ?cpds = "net_cpds net"
  let ?fs = "map (restrict ?reg ev) ?cpds"
  let ?vs = "eliminable net q ev"
  have r: "distinct (names ?reg)" and ne: "\<forall>v\<in>set ?reg. snd v \<noteq> []"
    and w: "\<forall>f\<in>set ?cpds. wf_factor ?reg f"
    and own: "map (\<lambda>f. take 1 (scope f)) ?cpds = map (\<lambda>v. [v]) ?reg"
    using wf by (simp_all add: wf_network_def)
  \<comment> \<open>validation\<close>
  have k1: "list_all (known_variable net) ([q] @ map fst ev)"
  proof -
    have "fst e \<in> set (names ?reg)" if "e \<in> set ev" for e
    proof -
      have "valid_entry ?reg e" using valid that by blast
      then obtain ss where "map_of ?reg (fst e) = Some ss"
        by (cases "map_of ?reg (fst e)") (simp_all add: valid_entry_def)
      then have "(fst e, ss) \<in> set ?reg" by (rule map_of_SomeD)
      then show ?thesis by (force simp: names_def)
    qed
    moreover have "q \<in> set (names ?reg)" using q by (force simp: names_def)
    ultimately show ?thesis by (auto simp: list_all_iff known_variable_def)
  qed
  have k2: "list_all (\<lambda>x. x \<notin> set [q]) (map fst ev)"
    using noq by (auto simp: list_all_iff)
  have k3: "list_all (valid_state net) ev"
    using valid by (simp add: list_all_iff valid_state_def valid_entry_def)
  \<comment> \<open>evidence\<close>
  have ev: "apply_evidence ?cpds ev = Inr ?fs"
    using apply_evidence_eq [OF r w valid] .
  have wfs: "\<forall>f\<in>set ?fs. wf_factor ?reg f" using w by (auto intro: wf_restrict)
  \<comment> \<open>elimination\<close>
  have ord: "elimination_order net [q] ev = names ?vs"
    by (simp add: elimination_order_def eliminable_def names_def filter_map comp_def)
  have sub: "set ?vs \<subseteq> set ?reg" by (auto simp: eliminable_def)
  have dvs: "distinct (names ?vs)" unfolding eliminable_def using r by (rule distinct_names_filter)
  have keep: "\<exists>f\<in>set ?fs. fst v \<in> set (names (scope f))"
    if vr: "v \<in> set ?reg" and vk: "fst v \<notin> set (map fst ev)" for v
  proof -
    obtain f where f: "f \<in> set ?cpds" "v \<in> set (scope f)" using own_cpd [OF own vr] by blast
    then have "v \<in> set (scope (restrict ?reg ev f))" using vk by (simp add: scope_restrict)
    then have "fst v \<in> set (names (scope (restrict ?reg ev f)))" by (simp add: names_def)
    then show ?thesis using f(1) by auto
  qed
  have occ: "\<forall>v\<in>set ?vs. \<exists>f\<in>set ?fs. fst v \<in> set (names (scope f))"
    using keep by (simp add: eliminable_def)
  obtain gs where gs: "eliminate_all ?fs (names ?vs) = Inr gs" "\<forall>g\<in>set gs. wf_factor ?reg g"
    "(\<Union>g\<in>set gs. set (names (scope g))) = (\<Union>f\<in>set ?fs. set (names (scope f))) - set (names ?vs)"
    "\<forall>\<sigma>. valid_on ?reg \<sigma> \<longrightarrow> joint gs \<sigma> = sum_over (rev ?vs) (joint ?fs) \<sigma>"
    using eliminate_all_eq [OF r wfs sub dvs occ] by blast
  \<comment> \<open>the final product has the scope \<open>[q]\<close>\<close>
  let ?P = "product_all gs"
  have wP: "wf_factor ?reg ?P" using gs(2) by (rule wf_product_all)
  have "(\<Union>f\<in>set ?fs. set (names (scope f))) \<subseteq> set (names ?reg) - set (map fst ev)"
    using w by (auto simp: scope_restrict names_def wf_factor_def)
  moreover have "set (names ?reg) - set (map fst ev) - set (names ?vs) \<subseteq> {q}"
    by (auto simp: names_def eliminable_def)
  moreover have "q \<in> (\<Union>f\<in>set ?fs. set (names (scope f))) - set (names ?vs)"
    using keep [OF q] noq by (auto simp: names_def eliminable_def)
  ultimately have "(\<Union>g\<in>set gs. set (names (scope g))) = {q}" unfolding gs(3) by blast
  then have "set (names (scope ?P)) = {q}" by (simp add: names_product_all)
  then have sP: "scope ?P = [(q, sq)]"
    using wP by (intro single_scope [OF r _ _ _ q]) (simp_all add: wf_factor_def)
  \<comment> \<open>its entries\<close>
  have z: "valid_on ?reg (\<lambda>x. 0)" using ne by (rule valid_on_zero)
  have entry: "lookup ?P ((\<lambda>x. 0)(q := k)) = unnormalized net q ev k" if kl: "k < length sq" for k
  proof -
    have v: "valid_on ?reg ((\<lambda>x. 0)(q := k))"
      using valid_on_update [OF r z q] kl by simp
    have "lookup ?P ((\<lambda>x. 0)(q := k)) = joint gs ((\<lambda>x. 0)(q := k))"
      using gs(2) v by (rule lookup_product_all)
    also have "\<dots> = sum_over (rev ?vs) (joint ?fs) ((\<lambda>x. 0)(q := k))"
      using gs(4) v by blast
    also have "\<dots> = sum_over (rev ?vs) (\<lambda>\<tau>. joint ?cpds (observe ?reg ev \<tau>)) ((\<lambda>x. 0)(q := k))"
    proof (rule sum_over_cong [OF r _ _ v])
      show "set (rev ?vs) \<subseteq> set ?reg" using sub by simp
    next
      fix \<tau> assume "valid_on ?reg \<tau>"
      with w show "joint ?fs \<tau> = joint ?cpds (observe ?reg ev \<tau>)" by (rule joint_restrict)
    qed
    finally show ?thesis by (simp add: unnormalized_def)
  qed
  have "vals ?P = map (\<lambda>k. lookup ?P ((\<lambda>x. 0)(q := k))) [0..<length sq]"
    using wP sP by (rule vals_single)
  also have "\<dots> = map (unnormalized net q ev) [0..<length sq]"
    by (rule map_cong [OF refl]) (simp add: entry)
  finally have vP: "vals ?P = map (unnormalized net q ev) [0..<length sq]" .
  \<comment> \<open>normalisation\<close>
  have "query net [q] ev =
      (case normalize_factor ?P of Inl e \<Rightarrow> Inl ZeroProbabilityEvidence | Inr r \<Rightarrow> Inr r)"
    using k1 k2 k3 by (simp add: query_def ev ord gs(1))
  then show ?thesis
    by (simp add: normalize_factor_eq vP sP comp_def)
qed

section \<open>Claims about the inference core\<close>

lemma observe_map_of:
  "observe reg ev \<sigma> y = (case map_of ev y of None \<Rightarrow> \<sigma> y | Some s \<Rightarrow> state_index reg (y, s))"
  by (induction ev) auto

lemma restrict_same_entries:
  assumes "distinct (map fst ev)" "distinct (map fst ev')" "set ev' = set ev"
  shows "restrict reg ev' f = restrict reg ev f"
proof -
  have "map_of ev' = map_of ev" using assms by (simp add: map_of_inject_set)
  then have "observe reg ev' \<sigma> = observe reg ev \<sigma>" for \<sigma>
    by (simp add: fun_eq_iff observe_map_of)
  moreover have "set (map fst ev') = set (map fst ev)" using assms(3) by simp
  ultimately show ?thesis by (simp add: restrict_def)
qed

lemma query_same_entries:
  assumes r: "distinct (names (net_variables net))"
    and w: "\<forall>g\<in>set (net_cpds net). wf_factor (net_variables net) g"
    and d: "distinct (map fst ev)" "distinct (map fst ev')" and s: "set ev' = set ev"
  shows "query net qs ev' = query net qs ev"
proof -
  have k: "set (map fst ev') = set (map fst ev)" using s by simp
  have c1: "list_all (known_variable net) (qs @ map fst ev') = list_all (known_variable net) (qs @ map fst ev)"
    using k by (simp add: list_all_iff)
  have c2: "list_all (\<lambda>x. x \<notin> set qs) (map fst ev') = list_all (\<lambda>x. x \<notin> set qs) (map fst ev)"
    using k unfolding list_all_iff by blast
  have c3: "list_all (valid_state net) ev' = list_all (valid_state net) ev"
    using s by (simp add: list_all_iff)
  have o: "elimination_order net qs ev' = elimination_order net qs ev"
    using k by (simp add: elimination_order_def)
  show ?thesis
  proof (cases "list_all (valid_state net) ev")
    case False
    then show ?thesis unfolding query_def c1 c2 c3 by simp
  next
    case True
    then have v: "\<forall>e\<in>set ev. valid_entry (net_variables net) e"
      by (simp add: list_all_iff valid_state_def valid_entry_def)
    then have v': "\<forall>e\<in>set ev'. valid_entry (net_variables net) e" using s by simp
    have "apply_evidence (net_cpds net) ev' = Inr (map (restrict (net_variables net) ev') (net_cpds net))"
      using apply_evidence_eq [OF r w v'] .
    moreover have "apply_evidence (net_cpds net) ev = Inr (map (restrict (net_variables net) ev) (net_cpds net))"
      using apply_evidence_eq [OF r w v] .
    moreover have "map (restrict (net_variables net) ev') (net_cpds net)
        = map (restrict (net_variables net) ev) (net_cpds net)"
      using restrict_same_entries [OF d s] by simp
    ultimately have ae: "apply_evidence (net_cpds net) ev' = apply_evidence (net_cpds net) ev" by simp
    show ?thesis unfolding query_def c1 c2 c3 o ae by (rule refl)
  qed
qed

text \<open>
  C9. Reducing a factor by two evidence entries on different variables of its scope gives
  the same result in either order, failures included; and for a network whose CPDs are
  well formed, two evidence mappings with the same entries in different orders give the
  same query result.
\<close>

theorem evidence_order_irrelevant:
  assumes "distinct (names (scope f))" "x \<noteq> y"
    and "x \<in> set (names (scope f))" "y \<in> set (names (scope f))"
    and "distinct (names (net_variables net))"
    and "\<forall>g\<in>set (net_cpds net). wf_factor (net_variables net) g"
    and "distinct (map fst ev)" "distinct (map fst ev')" "set ev' = set ev"
  shows "reduce_then f x s y t = reduce_then f y t x s \<and> query net qs ev' = query net qs ev"
  using reduce_then_commute [OF assms(1-4)] query_same_entries [OF assms(5-9)] by simp

theorem evidence_order_irrelevant_witness:
  "reduce_then toy_cpd_B ''B'' ''1'' ''A'' ''x'' = reduce_then toy_cpd_B ''A'' ''x'' ''B'' ''1'' \<and>
   reduce_then toy_cpd_B ''B'' ''1'' ''A'' ''x'' = Inr \<lparr>scope = [], vals = [0.2]\<rparr> \<and>
   query toy_network [] [(''B'', ''1''), (''A'', ''x'')] = query toy_network [] [(''A'', ''x''), (''B'', ''1'')]"
proof -
  have 1: "distinct (names (scope toy_cpd_B))" "''B'' \<noteq> ''A''"
    "''B'' \<in> set (names (scope toy_cpd_B))" "''A'' \<in> set (names (scope toy_cpd_B))"
    by (simp_all add: toy_cpd_B_def toy_A_def toy_B_def names_def)
  have 2: "distinct (names (net_variables toy_network))"
    "\<forall>g\<in>set (net_cpds toy_network). wf_factor (net_variables toy_network) g"
    by (simp_all add: toy_network_def toy_cpd_B_def toy_A_def toy_B_def names_def wf_factor_def cards_def)
  have 3: "distinct (map fst [(''A'', ''x''), (''B'', ''1'')])" "distinct (map fst [(''B'', ''1''), (''A'', ''x'')])"
    "set [(''B'', ''1''), (''A'', ''x'')] = set [(''A'', ''x''), (''B'', ''1'')]"
    by auto
  have 4: "reduce_then toy_cpd_B ''B'' ''1'' ''A'' ''x'' = Inr \<lparr>scope = [], vals = [0.2]\<rparr>"
    by code_simp
  show ?thesis
    using evidence_order_irrelevant [OF 1 2 3, of "''1''" "''x''" "[]"] 4 by simp
qed

section \<open>The network of the source\<close>

lemma model_is_network: "model = Inr model_network"
  by (simp add: model_def model_cpds_def full_probs_transposed_eq model_network_def model_tables_def)

lemma exact_normalized: "cpd_exact c \<Longrightarrow> cpd_normalized c"
  by (simp add: cpd_exact_def cpd_normalized_def)

lemma exact_magnitud: "cpd_exact cpd_magnitud"
  by (simp add: cpd_exact_def cpd_magnitud_def n_columns_def column_def)

lemma exact_profundidad: "cpd_exact cpd_profundidad"
  by (simp add: cpd_exact_def cpd_profundidad_def n_columns_def column_def)

lemma exact_tiempo: "cpd_exact cpd_tiempo"
  by (simp add: cpd_exact_def cpd_tiempo_def n_columns_def column_def)

lemma exact_falla: "cpd_exact cpd_falla"
  by (simp add: cpd_exact_def cpd_falla_def n_columns_def column_def)

lemma exact_patron: "cpd_exact cpd_patron"
  by (simp add: cpd_exact_def cpd_patron_def n_columns_def column_def all_less_numeral_3)

lemma exact_frecuencia: "cpd_exact cpd_frecuencia"
  by (simp add: cpd_exact_def cpd_frecuencia_def n_columns_def column_def all_less_numeral_3)

lemma exact_intensidad: "cpd_exact cpd_intensidad"
  by (simp add: cpd_exact_def cpd_intensidad_def n_columns_def column_def all_less_numeral_16)

lemma exact_probabilidad: "cpd_exact (cpd_probabilidad (zip_star probs_rows))"
proof -
  let ?c = "cpd_probabilidad (zip_star probs_rows)"
  have v: "cpd_values ?c = zip_star probs_rows" by (simp add: cpd_probabilidad_def)
  have 1: "length (cpd_values ?c) = variable_card ?c"
    by (simp add: cpd_probabilidad_def zip_star_probs_rows)
  have 2: "\<forall>row\<in>set (cpd_values ?c). length row = n_columns ?c"
    unfolding v n_columns_probabilidad by (simp add: zip_star_probs_rows length_probs_rows)
  have 3: "(\<forall>x\<in>set (column ?c j). 0 \<le> x) \<and> sum_list (column ?c j) = 1"
    if jl: "j < 12288" for j
  proof -
    obtain a b c where r: "probs_rows ! j = [a / (a + b + c), b / (a + b + c), c / (a + b + c)]"
      "0 \<le> a" "1/4 \<le> b" "0 \<le> c" using probs_rows_nth [OF jl] by blast
    have s: "0 \<le> a + b + c" using r by linarith
    show ?thesis
      unfolding column_probabilidad [OF jl] r(1)
      using r(2-4) s sum3 [OF r(2-4)] by simp
  qed
  show ?thesis
    unfolding cpd_exact_def using 1 2 3 by (simp only: n_columns_probabilidad) blast
qed

lemma length_concat_uniform: "\<forall>ys\<in>set yss. length ys = n \<Longrightarrow> length (concat yss) = length yss * n"
  by (induction yss) simp_all

lemma scope_cpd_factor:
  "scope (cpd_factor c) = map (\<lambda>n. (n, states_of c n)) (variable c # evidence c)"
  by (simp add: cpd_factor_def)

lemma cards_cpd_factor:
  "cpd_consistent c \<Longrightarrow> cards (scope (cpd_factor c)) = variable_card c # evidence_card c"
  by (simp add: cpd_factor_def cards_def cpd_consistent_def comp_def)

lemma wf_cpd_factor:
  assumes "cpd_exact c" "cpd_consistent c" "set (scope (cpd_factor c)) \<subseteq> set reg"
  shows "wf_factor reg (cpd_factor c)"
proof -
  have "names (scope (cpd_factor c)) = variable c # evidence c"
    by (simp add: cpd_factor_def names_def comp_def)
  then have "distinct (names (scope (cpd_factor c)))" using assms(2) by (simp add: cpd_consistent_def)
  moreover have "length (vals (cpd_factor c)) = variable_card c * n_columns c"
    using assms(1) length_concat_uniform [of "cpd_values c" "n_columns c"]
    by (simp add: cpd_factor_def cpd_exact_def)
  ultimately show ?thesis
    using assms(3) cards_cpd_factor [OF assms(2)] by (simp add: wf_factor_def n_columns_def)
qed

lemma lookup_cpd_factor:
  assumes e: "cpd_exact c" and k: "cpd_consistent c" and v: "valid_on (scope (cpd_factor c)) \<sigma>"
  shows "lookup (cpd_factor c) \<sigma> = column c (radix (evidence_card c) (map \<sigma> (evidence c))) ! \<sigma> (variable c)
       \<and> radix (evidence_card c) (map \<sigma> (evidence c)) < n_columns c \<and> \<sigma> (variable c) < variable_card c"
proof -
  let ?j = "radix (evidence_card c) (map \<sigma> (evidence c))"
  let ?i = "\<sigma> (variable c)"
  have i: "?i < variable_card c"
    using v k by (simp add: valid_on_def cpd_factor_def cpd_consistent_def)
  have ec: "evidence_card c = map (\<lambda>n. length (states_of c n)) (evidence c)"
    using k by (simp add: cpd_consistent_def)
  have "\<forall>m<length (evidence_card c). map \<sigma> (evidence c) ! m < evidence_card c ! m"
  proof (intro allI impI)
    fix m assume m: "m < length (evidence_card c)"
    then have ml: "m < length (evidence c)" using ec by (metis length_map)
    then have "(evidence c ! m, states_of c (evidence c ! m)) \<in> set (scope (cpd_factor c))"
      by (simp add: cpd_factor_def)
    then have "\<sigma> (evidence c ! m) < length (states_of c (evidence c ! m))"
      using v by (auto simp: valid_on_def)
    then show "map \<sigma> (evidence c) ! m < evidence_card c ! m"
      using ml by (subst ec) simp
  qed
  moreover have "length (map \<sigma> (evidence c)) = length (evidence_card c)" using ec by (metis length_map)
  ultimately have j: "?j < n_columns c" unfolding n_columns_def by (intro radix_less)
  have "digits (scope (cpd_factor c)) \<sigma> = ?i # map \<sigma> (evidence c)"
    by (simp add: cpd_factor_def digits_def comp_def)
  then have "lookup (cpd_factor c) \<sigma> = concat (cpd_values c) ! (?i * n_columns c + ?j)"
    by (simp add: lookup_def cards_cpd_factor [OF k] n_columns_def) (simp add: cpd_factor_def)
  also have "\<dots> = cpd_values c ! ?i ! ?j"
    using e i j by (intro nth_concat_uniform) (simp_all add: cpd_exact_def)
  also have "\<dots> = column c ?j ! ?i"
    using e i by (simp add: column_def cpd_exact_def)
  finally show ?thesis using i j by simp
qed

lemma cpd_factor_sums_to_one:
  assumes e: "cpd_exact c" and k: "cpd_consistent c" and r: "distinct (names reg)"
    and s: "set (scope (cpd_factor c)) \<subseteq> set reg" and v: "valid_on reg \<sigma>"
  shows "sum_list (map (\<lambda>i. lookup (cpd_factor c) (\<sigma>(variable c := i))) [0..<variable_card c]) = 1"
proof -
  let ?j = "radix (evidence_card c) (map \<sigma> (evidence c))"
  have t: "(variable c, states_of c (variable c)) \<in> set reg"
    using s by (simp add: cpd_factor_def)
  have len: "length (states_of c (variable c)) = variable_card c"
    using k by (simp add: cpd_consistent_def)
  have notin: "variable c \<notin> set (evidence c)" using k by (simp add: cpd_consistent_def)
  have same: "map (\<sigma>(variable c := i)) (evidence c) = map \<sigma> (evidence c)" for i
    using notin by (intro map_cong refl) auto
  have each: "lookup (cpd_factor c) (\<sigma>(variable c := i)) = column c ?j ! i \<and> ?j < n_columns c"
    if il: "i < variable_card c" for i
  proof -
    have "valid_on reg (\<sigma>(variable c := i))"
      using valid_on_update [OF r v t] il len by simp
    then have "valid_on (scope (cpd_factor c)) (\<sigma>(variable c := i))"
      using s by (rule valid_on_subset [rotated])
    from lookup_cpd_factor [OF e k this] show ?thesis by (simp add: same)
  qed
  have lc: "length (column c ?j) = variable_card c" using e by (simp add: column_def cpd_exact_def)
  have "map (\<lambda>i. lookup (cpd_factor c) (\<sigma>(variable c := i))) [0..<variable_card c]
      = map (\<lambda>i. column c ?j ! i) [0..<length (column c ?j)]"
    unfolding lc by (rule map_cong [OF refl]) (simp add: each)
  also have "\<dots> = column c ?j" by (rule map_nth)
  finally have m: "map (\<lambda>i. lookup (cpd_factor c) (\<sigma>(variable c := i))) [0..<variable_card c] = column c ?j" .
  have "0 < variable_card c"
  proof -
    have "\<sigma> (variable c) < length (states_of c (variable c))"
      using v t by (auto simp: valid_on_def)
    then show ?thesis using len by simp
  qed
  then have "?j < n_columns c" using each [of 0] by simp
  then show ?thesis unfolding m using e by (simp add: cpd_exact_def)
qed

lemma cpd_factor_entry:
  assumes e: "cpd_exact c" and k: "cpd_consistent c" and v: "valid_on (scope (cpd_factor c)) \<sigma>"
  shows "\<exists>row\<in>set (cpd_values c). lookup (cpd_factor c) \<sigma> \<in> set row"
proof -
  let ?j = "radix (evidence_card c) (map \<sigma> (evidence c))"
  let ?i = "\<sigma> (variable c)"
  from lookup_cpd_factor [OF e k v]
  have l: "lookup (cpd_factor c) \<sigma> = column c ?j ! ?i" "?j < n_columns c" "?i < variable_card c"
    by simp_all
  have i: "?i < length (cpd_values c)" using e l(3) by (simp add: cpd_exact_def)
  then have "cpd_values c ! ?i \<in> set (cpd_values c)" by simp
  moreover have "?j < length (cpd_values c ! ?i)" using e l(2) i by (simp add: cpd_exact_def)
  then have "cpd_values c ! ?i ! ?j \<in> set (cpd_values c ! ?i)" by simp
  moreover have "column c ?j ! ?i = cpd_values c ! ?i ! ?j" using i by (simp add: column_def)
  ultimately show ?thesis using l(1) by auto
qed


text \<open>
  A list of variables with their CPDs in which no CPD mentions a later variable: summing
  the product of the CPDs over all joint states gives 1.
\<close>

lemma chain_sums_to_one:
  assumes r: "distinct (names reg)"
  shows "set (map fst ps) \<subseteq> set reg \<Longrightarrow>
     \<forall>i<length ps. \<forall>j<i. fst (fst (ps ! i)) \<notin> set (names (scope (snd (ps ! j)))) \<Longrightarrow>
     \<forall>p\<in>set ps. \<forall>\<tau>. valid_on reg \<tau> \<longrightarrow>
        sum_list (map (\<lambda>k. lookup (snd p) (\<tau>(fst (fst p) := k))) [0..<length (snd (fst p))]) = 1 \<Longrightarrow>
     valid_on reg \<sigma> \<Longrightarrow> sum_over (map fst ps) (joint (map snd ps)) \<sigma> = 1"
proof (induction ps arbitrary: \<sigma> rule: rev_induct)
  case Nil
  then show ?case by (simp add: joint_def)
next
  case (snoc p ps)
  obtain v c where p: "p = (v, c)" by (cases p)
  have sub: "set (map fst ps) \<subseteq> set reg" and vr: "v \<in> set reg" using snoc.prems(1) p by auto
  have earlier: "\<forall>i<length ps. \<forall>j<i. fst (fst (ps ! i)) \<notin> set (names (scope (snd (ps ! j))))"
  proof (intro allI impI)
    fix i j assume "i < length ps" "j < i"
    then show "fst (fst (ps ! i)) \<notin> set (names (scope (snd (ps ! j))))"
      using snoc.prems(2) [rule_format, of i j] by (simp add: nth_append)
  qed
  have free: "fst v \<notin> set (names (scope d))" if d: "d \<in> set (map snd ps)" for d
  proof -
    obtain j where j: "j < length ps" "snd (ps ! j) = d" using d by (auto simp: in_set_conv_nth)
    then show ?thesis
      using snoc.prems(2) [rule_format, of "length ps" j] p by (simp add: nth_append)
  qed
  have norm: "\<forall>q\<in>set ps. \<forall>\<tau>. valid_on reg \<tau> \<longrightarrow>
        sum_list (map (\<lambda>k. lookup (snd q) (\<tau>(fst (fst q) := k))) [0..<length (snd (fst q))]) = 1"
  proof (rule ballI)
    fix q assume "q \<in> set ps"
    then have "q \<in> set (ps @ [p])" by simp
    with snoc.prems(3) show "\<forall>\<tau>. valid_on reg \<tau> \<longrightarrow>
        sum_list (map (\<lambda>k. lookup (snd q) (\<tau>(fst (fst q) := k))) [0..<length (snd (fst q))]) = 1"
      by (rule bspec)
  qed
  have one: "sum_list (map (\<lambda>k. lookup c (\<tau>(fst v := k))) [0..<length (snd v)]) = 1"
    if vt: "valid_on reg \<tau>" for \<tau>
  proof -
    have "p \<in> set (ps @ [p])" by simp
    from snoc.prems(3) [rule_format, OF this vt] show ?thesis
      by (simp only: p fst_conv snd_conv)
  qed
  have inner: "sum_list (map (\<lambda>k. joint (map snd ps @ [c]) (\<tau>(fst v := k))) [0..<length (snd v)])
      = joint (map snd ps) \<tau>" if val: "valid_on reg \<tau>" for \<tau>
  proof -
    have "joint (map snd ps @ [c]) (\<tau>(fst v := k)) = joint (map snd ps) \<tau> * lookup c (\<tau>(fst v := k))" for k
    proof -
      have "joint (map snd ps) (\<tau>(fst v := k)) = joint (map snd ps) \<tau>"
        by (rule joint_cong) (use free in auto)
      then show ?thesis by (simp add: joint_append) (simp add: joint_def)
    qed
    then have "sum_list (map (\<lambda>k. joint (map snd ps @ [c]) (\<tau>(fst v := k))) [0..<length (snd v)])
        = joint (map snd ps) \<tau> * sum_list (map (\<lambda>k. lookup c (\<tau>(fst v := k))) [0..<length (snd v)])"
      by (simp add: sum_list_const_mult)
    then show ?thesis using one [OF val] by simp
  qed
  have "sum_over (map fst (ps @ [p])) (joint (map snd (ps @ [p]))) \<sigma>
      = sum_over (map fst ps) (\<lambda>\<tau>. sum_list (map (\<lambda>k. joint (map snd ps @ [c]) (\<tau>(fst v := k)))
          [0..<length (snd v)])) \<sigma>"
    by (simp add: p sum_over_snoc)
  also have "\<dots> = sum_over (map fst ps) (joint (map snd ps)) \<sigma>"
    by (rule sum_over_cong [OF r inner sub snoc.prems(4)])
  also have "\<dots> = 1"
    using snoc.IH [OF sub earlier norm snoc.prems(4)] .
  finally show ?case .
qed

lemma model_variables: "net_variables model_network = input_variables @ [outcome_variable]"
  by (simp add: model_network_def model_tables_def network_of_def states_of_def input_variables_def
      outcome_variable_def cpd_magnitud_def cpd_profundidad_def cpd_tiempo_def cpd_falla_def
      cpd_patron_def cpd_intensidad_def cpd_frecuencia_def cpd_probabilidad_def)

lemma model_cpds: "net_cpds model_network = map cpd_factor model_tables"
  by (simp add: model_network_def network_of_def)

lemma consistent_tables: "\<forall>c\<in>set model_tables. cpd_consistent c"
  by (simp add: model_tables_def cpd_consistent_def states_of_def
      cpd_magnitud_def cpd_profundidad_def cpd_tiempo_def cpd_falla_def
      cpd_patron_def cpd_intensidad_def cpd_frecuencia_def cpd_probabilidad_def
      magnitudes_def profundidades_def tiempos_def fallas_def patrones_def intensidades_def
      frecuencias_def)

lemma exact_tables: "\<forall>c\<in>set model_tables. cpd_exact c"
  using exact_magnitud exact_profundidad exact_tiempo exact_falla exact_patron exact_intensidad
    exact_frecuencia exact_probabilidad
  by (simp add: model_tables_def)

lemma scopes_registered:
  "\<forall>c\<in>set model_tables. set (scope (cpd_factor c)) \<subseteq> set (net_variables model_network)"
  unfolding model_variables
  by (simp add: model_tables_def cpd_factor_def states_of_def input_variables_def
      outcome_variable_def cpd_magnitud_def cpd_profundidad_def cpd_tiempo_def cpd_falla_def
      cpd_patron_def cpd_intensidad_def cpd_frecuencia_def cpd_probabilidad_def)

lemma distinct_model_names: "distinct (names (net_variables model_network))"
  unfolding model_variables
  by (simp add: names_def input_variables_def outcome_variable_def)

lemma nonempty_model_domains: "\<forall>v\<in>set (net_variables model_network). snd v \<noteq> []"
  unfolding model_variables
  by (simp add: input_variables_def outcome_variable_def magnitudes_def profundidades_def
      tiempos_def fallas_def patrones_def intensidades_def frecuencias_def)

lemma own_model_cpds:
  "map (\<lambda>f. take 1 (scope f)) (net_cpds model_network) = map (\<lambda>v. [v]) (net_variables model_network)"
  unfolding model_variables model_cpds
  by (simp add: model_tables_def cpd_factor_def states_of_def input_variables_def
      outcome_variable_def cpd_magnitud_def cpd_profundidad_def cpd_tiempo_def cpd_falla_def
      cpd_patron_def cpd_intensidad_def cpd_frecuencia_def cpd_probabilidad_def)

lemma wf_model_cpds: "\<forall>f\<in>set (net_cpds model_network). wf_factor (net_variables model_network) f"
proof -
  have "wf_factor (net_variables model_network) (cpd_factor c)" if c: "c \<in> set model_tables" for c
    using exact_tables consistent_tables scopes_registered c by (intro wf_cpd_factor) blast+
  then show ?thesis unfolding model_cpds by simp
qed

lemma wf_model: "wf_network model_network"
  unfolding wf_network_def
  using distinct_model_names nonempty_model_domains wf_model_cpds own_model_cpds by simp

lemma topologically_listed_nth:
  "topologically_listed ps \<Longrightarrow> \<forall>i<length ps. \<forall>j<i. fst (ps ! i) \<notin> set (snd (ps ! j))"
proof (induction ps)
  case Nil
  then show ?case by simp
next
  case (Cons p ps)
  show ?case
  proof (intro allI impI)
    fix i j assume i: "i < length (p # ps)" and j: "j < i"
    then obtain i' where i': "i = Suc i'" "i' < length ps" by (cases i) auto
    show "fst ((p # ps) ! i) \<notin> set (snd ((p # ps) ! j))"
    proof (cases j)
      case 0
      have "ps ! i' \<in> set ps" using i'(2) by simp
      then show ?thesis using Cons.prems 0 i'(1) by (auto simp: list_all_iff)
    next
      case (Suc j')
      then have "j' < i'" using j i'(1) by simp
      then show ?thesis using Cons i' Suc by simp
    qed
  qed
qed

lemma model_scope_names:
  "scope_names model_listing =
    [(''magnitud_historica'', [''magnitud_historica'']),
     (''profundidad_sismica'', [''profundidad_sismica'']),
     (''tiempo_ultimo_sismo'', [''tiempo_ultimo_sismo'']),
     (''actividad_falla'', [''actividad_falla'']),
     (''patron_sismico'', [''patron_sismico'', ''actividad_falla'']),
     (''intensidad_historica'', [''intensidad_historica'', ''magnitud_historica'', ''profundidad_sismica'']),
     (''frecuencia_mensual'', [''frecuencia_mensual'', ''actividad_falla'']),
     (''probabilidad_sismo'', [''probabilidad_sismo'', ''magnitud_historica'', ''profundidad_sismica'',
        ''tiempo_ultimo_sismo'', ''actividad_falla'', ''patron_sismico'', ''intensidad_historica'',
        ''frecuencia_mensual''])]"
  by (simp add: scope_names_def model_listing_def model_tables_def cpd_factor_def names_def comp_def
      cpd_magnitud_def cpd_profundidad_def cpd_tiempo_def cpd_falla_def
      cpd_patron_def cpd_intensidad_def cpd_frecuencia_def cpd_probabilidad_def)

lemma model_listed: "topologically_listed (scope_names model_listing)"
  unfolding model_scope_names by simp

lemma model_listed_nth:
  "\<forall>i<length model_listing. \<forall>j<i.
      fst (fst (model_listing ! i)) \<notin> set (names (scope (snd (model_listing ! j))))"
proof (intro allI impI)
  fix i j assume i: "i < length model_listing" and j: "j < i"
  have "fst (scope_names model_listing ! i) \<notin> set (snd (scope_names model_listing ! j))"
    using topologically_listed_nth [OF model_listed] i j by (simp add: scope_names_def)
  then show "fst (fst (model_listing ! i)) \<notin> set (names (scope (snd (model_listing ! j))))"
    using i j by (simp add: scope_names_def)
qed

lemma model_listing_fst: "map fst model_listing = net_variables model_network"
  by (simp add: model_listing_def model_network_def network_of_def comp_def)

lemma model_listing_snd: "map snd model_listing = net_cpds model_network"
  by (simp add: model_listing_def model_network_def network_of_def comp_def)

lemma model_listing_normalized:
  assumes "p \<in> set model_listing" "valid_on (net_variables model_network) \<tau>"
  shows "sum_list (map (\<lambda>k. lookup (snd p) (\<tau>(fst (fst p) := k))) [0..<length (snd (fst p))]) = 1"
proof -
  obtain c where c: "c \<in> set model_tables" "p = ((variable c, states_of c (variable c)), cpd_factor c)"
    using assms(1) by (auto simp: model_listing_def)
  have e: "cpd_exact c" and k: "cpd_consistent c"
    and s: "set (scope (cpd_factor c)) \<subseteq> set (net_variables model_network)"
    using c(1) exact_tables consistent_tables scopes_registered by blast+
  have "length (states_of c (variable c)) = variable_card c" using k by (simp add: cpd_consistent_def)
  then show ?thesis
    using cpd_factor_sums_to_one [OF e k distinct_model_names s assms(2)] by (simp add: c(2))
qed

lemma joint_sums_to_one:
  assumes "valid_on (net_variables model_network) \<sigma>"
  shows "sum_over (net_variables model_network) (joint (net_cpds model_network)) \<sigma> = 1"
proof -
  have "sum_over (map fst model_listing) (joint (map snd model_listing)) \<sigma> = 1"
  proof (rule chain_sums_to_one [OF distinct_model_names _ _ _ assms])
    show "set (map fst model_listing) \<subseteq> set (net_variables model_network)"
      by (simp add: model_listing_fst)
    show "\<forall>i<length model_listing. \<forall>j<i.
        fst (fst (model_listing ! i)) \<notin> set (names (scope (snd (model_listing ! j))))"
      by (rule model_listed_nth)
    show "\<forall>p\<in>set model_listing. \<forall>\<tau>. valid_on (net_variables model_network) \<tau> \<longrightarrow>
        sum_list (map (\<lambda>k. lookup (snd p) (\<tau>(fst (fst p) := k))) [0..<length (snd (fst p))]) = 1"
      using model_listing_normalized by blast
  qed
  then show ?thesis by (simp only: model_listing_fst model_listing_snd)
qed

lemma model_cards: "cards (net_variables model_network) = [4, 4, 4, 3, 4, 4, 4, 3]"
  unfolding model_variables
  by (simp add: cards_def input_variables_def outcome_variable_def magnitudes_def profundidades_def
      tiempos_def fallas_def patrones_def intensidades_def frecuencias_def)

lemma n_joint_states: "length (assignments (net_variables model_network)) = 36864"
  by (simp only: length_assignments model_cards) simp

text \<open>
  C5. The network the module builds is globally consistent: its joint distribution, the
  product of the eight CPDs, summed over all 36864 joint states of the eight variables
  (the prior of the empty evidence) is 1, so within \<open>1e-6\<close> of 1.
\<close>

theorem joint_distribution_sums_to_one:
  "\<exists>net. model = Inr net \<and>
         length (net_cpds net) = 8 \<and>
         length (assignments (net_variables net)) = 36864 \<and>
         prior net [] = 1 \<and> \<bar>prior net [] - 1\<bar> \<le> 1 / 10 ^ 6"
proof -
  have z: "valid_on (net_variables model_network) (\<lambda>x. 0)"
    using nonempty_model_domains by (rule valid_on_zero)
  have "prior model_network [] = 1"
    using joint_sums_to_one [OF z] by (simp add: prior_def unobserved_def)
  moreover have "length (net_cpds model_network) = 8"
    by (simp add: model_cpds model_tables_def)
  ultimately show ?thesis using model_is_network n_joint_states
    by (intro exI [of _ model_network]) simp
qed

section \<open>The normalising constant of a query is the prior of the evidence\<close>

lemma sum_list_swap:
  fixes f :: "'a \<Rightarrow> 'b \<Rightarrow> rat"
  shows "sum_list (map (\<lambda>i. sum_list (map (\<lambda>j. f i j) ys)) xs)
       = sum_list (map (\<lambda>j. sum_list (map (\<lambda>i. f i j) xs)) ys)"
proof (induction xs)
  case Nil
  then show ?case by simp
next
  case (Cons x xs)
  then show ?case by (simp add: sum_list_addf)
qed

lemma sum_over_front:
  "fst v \<notin> set (names vs) \<Longrightarrow> sum_over (vs @ [v]) h \<sigma> = sum_over (v # vs) h \<sigma>"
proof (induction vs arbitrary: \<sigma>)
  case Nil
  then show ?case by simp
next
  case (Cons u vs)
  have uv: "fst u \<noteq> fst v" and rest: "fst v \<notin> set (names vs)"
    using Cons.prems by (auto simp: names_def)
  have "sum_over ((u # vs) @ [v]) h \<sigma>
      = sum_list (map (\<lambda>j. sum_over (v # vs) h (\<sigma>(fst u := j))) [0..<length (snd u)])"
    using Cons.IH [OF rest] by simp
  also have "\<dots> = sum_list (map (\<lambda>j. sum_list (map (\<lambda>k. sum_over vs h (\<sigma>(fst u := j, fst v := k)))
        [0..<length (snd v)])) [0..<length (snd u)])"
    by simp
  also have "\<dots> = sum_list (map (\<lambda>k. sum_list (map (\<lambda>j. sum_over vs h (\<sigma>(fst u := j, fst v := k)))
        [0..<length (snd u)])) [0..<length (snd v)])"
    by (rule sum_list_swap)
  also have "\<dots> = sum_list (map (\<lambda>k. sum_list (map (\<lambda>j. sum_over vs h (\<sigma>(fst v := k, fst u := j)))
        [0..<length (snd u)])) [0..<length (snd v)])"
    using uv by (simp add: fun_upd_twist)
  also have "\<dots> = sum_over (v # u # vs) h \<sigma>" by simp
  finally show ?case .
qed

lemma sum_over_rev: "distinct (names vs) \<Longrightarrow> sum_over (rev vs) h \<sigma> = sum_over vs h \<sigma>"
proof (induction vs arbitrary: \<sigma>)
  case Nil
  then show ?case by simp
next
  case (Cons v vs)
  have "fst v \<notin> set (names (rev vs))" and d: "distinct (names vs)"
    using Cons.prems by (auto simp: names_def)
  then have "sum_over (rev (v # vs)) h \<sigma> = sum_over (v # rev vs) h \<sigma>"
    by (simp add: sum_over_front)
  also have "\<dots> = sum_over (v # vs) h \<sigma>"
    by (simp only: sum_over.simps Cons.IH [OF d])
  finally show ?case .
qed

lemma observe_update:
  assumes "x \<notin> set (map fst ev)"
  shows "observe reg ev (\<sigma>(x := k)) = (observe reg ev \<sigma>)(x := k)"
proof
  fix y
  show "observe reg ev (\<sigma>(x := k)) y = ((observe reg ev \<sigma>)(x := k)) y"
  proof (cases "map_of ev y")
    case None
    then show ?thesis by (simp add: observe_map_of)
  next
    case (Some s)
    then have "y \<in> set (map fst ev)" by (metis map_of_eq_None_iff option.distinct(1) set_map)
    then have "y \<noteq> x" using assms by auto
    then show ?thesis using Some by (simp add: observe_map_of)
  qed
qed

lemma sum_over_observe:
  "set (names vs) \<inter> set (map fst ev) = {} \<Longrightarrow>
   sum_over vs (\<lambda>\<tau>. h (observe reg ev \<tau>)) \<sigma> = sum_over vs h (observe reg ev \<sigma>)"
proof (induction vs arbitrary: \<sigma>)
  case Nil
  then show ?case by simp
next
  case (Cons v vs)
  have v: "fst v \<notin> set (map fst ev)" and rest: "set (names vs) \<inter> set (map fst ev) = {}"
    using Cons.prems by (auto simp: names_def)
  show ?case by (simp only: sum_over.simps Cons.IH [OF rest] observe_update [OF v])
qed

lemma total_is_prior:
  assumes d: "distinct (names (net_variables net))"
    and last: "net_variables net = vs @ [(q, sq)]" and noq: "q \<notin> set (map fst ev)"
  shows "sum_list (map (unnormalized net q ev) [0..<length sq]) = prior net ev"
proof -
  let ?reg = "net_variables net"
  let ?U = "filter (\<lambda>v. fst v \<notin> set (map fst ev)) vs"
  let ?H = "\<lambda>\<tau>. joint (net_cpds net) (observe ?reg ev \<tau>)"
  have qvs: "q \<notin> set (names vs)" and dvs: "distinct (names vs)"
    using d last by (auto simp: names_def)
  have "filter (\<lambda>v. fst v \<noteq> q \<and> fst v \<notin> set (map fst ev)) vs = ?U"
    using qvs by (intro filter_cong refl) (auto simp: names_def)
  then have el: "eliminable net q ev = ?U" by (simp add: eliminable_def last)
  have un: "unobserved net ev = ?U @ [(q, sq)]" using noq by (simp add: unobserved_def last)
  have dU: "distinct (names (?U @ [(q, sq)]))"
    using qvs dvs distinct_names_filter [of vs "\<lambda>v. fst v \<notin> set (map fst ev)"]
    by (auto simp: names_def)
  have dis: "set (names (?U @ [(q, sq)])) \<inter> set (map fst ev) = {}"
    using noq by (auto simp: names_def)
  have "unnormalized net q ev = (\<lambda>k. sum_over (rev ?U) ?H ((\<lambda>x. 0)(q := k)))"
    by (rule ext) (simp only: unnormalized_def el)
  then have "sum_list (map (unnormalized net q ev) [0..<length sq]) = sum_over ((q, sq) # rev ?U) ?H (\<lambda>x. 0)"
    by (simp only: sum_over.simps fst_conv snd_conv)
  also have "\<dots> = sum_over (rev (?U @ [(q, sq)])) ?H (\<lambda>x. 0)" by (simp only: rev_append rev.simps append.simps)
  also have "\<dots> = sum_over (?U @ [(q, sq)]) ?H (\<lambda>x. 0)" using dU by (rule sum_over_rev)
  also have "\<dots> = sum_over (?U @ [(q, sq)]) (joint (net_cpds net)) (observe ?reg ev (\<lambda>x. 0))"
    using dis by (rule sum_over_observe)
  finally show ?thesis by (simp only: prior_def un)
qed

subsection \<open>Bounds on sums and products\<close>

lemma sum_list_gap:
  fixes c :: rat
  assumes "0 < c" "\<forall>x\<in>set xs. x = 0 \<or> c \<le> x"
  shows "sum_list xs = 0 \<or> c \<le> sum_list xs"
  using assms(2)
proof (induction xs)
  case Nil
  then show ?case by simp
next
  case (Cons x xs)
  then have "sum_list xs = 0 \<or> c \<le> sum_list xs" "x = 0 \<or> c \<le> x" by simp_all
  then show ?case using assms(1) by auto
qed

lemma prod_list_gap:
  fixes c :: rat
  assumes "0 < c" "c \<le> 1" "\<forall>x\<in>set xs. x = 0 \<or> c \<le> x"
  shows "prod_list xs = 0 \<or> c ^ length xs \<le> prod_list xs"
  using assms(3)
proof (induction xs)
  case Nil
  then show ?case by simp
next
  case (Cons x xs)
  then have r: "prod_list xs = 0 \<or> c ^ length xs \<le> prod_list xs" and x: "x = 0 \<or> c \<le> x"
    by simp_all
  show ?case
  proof (cases "x = 0 \<or> prod_list xs = 0")
    case True
    then show ?thesis by auto
  next
    case False
    then have "c \<le> x" "c ^ length xs \<le> prod_list xs" using r x by auto
    then have "c * c ^ length xs \<le> x * prod_list xs"
      using assms(1) by (intro mult_mono) auto
    then show ?thesis by simp
  qed
qed

lemma sum_over_gap:
  fixes c :: rat
  assumes r: "distinct (names reg)" and c: "0 < c"
    and h: "\<And>\<tau>. valid_on reg \<tau> \<Longrightarrow> h \<tau> = 0 \<or> c \<le> h \<tau>"
  shows "set vs \<subseteq> set reg \<Longrightarrow> valid_on reg \<sigma> \<Longrightarrow> sum_over vs h \<sigma> = 0 \<or> c \<le> sum_over vs h \<sigma>"
proof (induction vs arbitrary: \<sigma>)
  case Nil
  then show ?case by (simp add: h)
next
  case (Cons v vs)
  have "sum_over vs h (\<sigma>(fst v := k)) = 0 \<or> c \<le> sum_over vs h (\<sigma>(fst v := k))"
    if kl: "k < length (snd v)" for k
  proof -
    have "v \<in> set reg" using Cons.prems(1) by simp
    then have vv: "valid_on reg (\<sigma>(fst v := k))"
      using Cons.prems(2) kl by (intro valid_on_update [OF r])
    have "set vs \<subseteq> set reg" using Cons.prems(1) by simp
    then show ?thesis using vv by (rule Cons.IH)
  qed
  then have "\<forall>x\<in>set (map (\<lambda>k. sum_over vs h (\<sigma>(fst v := k))) [0..<length (snd v)]). x = 0 \<or> c \<le> x"
    by auto
  with c have "sum_list (map (\<lambda>k. sum_over vs h (\<sigma>(fst v := k))) [0..<length (snd v)]) = 0
      \<or> c \<le> sum_list (map (\<lambda>k. sum_over vs h (\<sigma>(fst v := k))) [0..<length (snd v)])"
    by (rule sum_list_gap)
  then show ?case by (simp only: sum_over.simps)
qed



section \<open>Priors in the network of the source\<close>

lemma model_tables_split: "model_tables = input_tables @ [cpd_probabilidad (zip_star probs_rows)]"
  by (simp add: model_tables_def input_tables_def)

lemma model_cpds_split:
  "net_cpds model_network
     = map cpd_factor input_tables @ [cpd_factor (cpd_probabilidad (zip_star probs_rows))]"
  by (simp add: model_cpds model_tables_split)

lemma gapped_tables:
  "\<forall>c\<in>set input_tables. \<forall>row\<in>set (cpd_values c). \<forall>x\<in>set row. x = 0 \<or> 1 / 10 \<le> x"
  by (simp add: input_tables_def cpd_magnitud_def cpd_profundidad_def cpd_tiempo_def cpd_falla_def
      cpd_patron_def cpd_intensidad_def cpd_frecuencia_def)

lemma outcome_not_in_input_scopes:
  "\<forall>c\<in>set input_tables. ''probabilidad_sismo'' \<notin> set (names (scope (cpd_factor c)))"
  by (simp add: input_tables_def cpd_factor_def names_def cpd_magnitud_def cpd_profundidad_def
      cpd_tiempo_def cpd_falla_def cpd_patron_def cpd_intensidad_def cpd_frecuencia_def)

lemma model_table_valid:
  assumes "c \<in> set model_tables" "valid_on (net_variables model_network) \<sigma>"
  shows "cpd_exact c" "cpd_consistent c" "valid_on (scope (cpd_factor c)) \<sigma>"
proof -
  show "cpd_exact c" "cpd_consistent c" using assms(1) exact_tables consistent_tables by blast+
  have "set (scope (cpd_factor c)) \<subseteq> set (net_variables model_network)"
    using assms(1) scopes_registered by blast
  then show "valid_on (scope (cpd_factor c)) \<sigma>" using assms(2) by (rule valid_on_subset)
qed

lemma input_joint_gap:
  assumes "valid_on (net_variables model_network) \<sigma>"
  shows "input_joint \<sigma> = 0 \<or> 1 / 10 ^ 7 \<le> input_joint \<sigma>"
proof -
  let ?xs = "map (\<lambda>f. lookup f \<sigma>) (map cpd_factor input_tables)"
  have g: "lookup (cpd_factor c) \<sigma> = 0 \<or> 1 / 10 \<le> lookup (cpd_factor c) \<sigma>" if c: "c \<in> set input_tables" for c
  proof -
    have m: "c \<in> set model_tables" using c by (simp add: model_tables_split)
    obtain row where "row \<in> set (cpd_values c)" "lookup (cpd_factor c) \<sigma> \<in> set row"
      using cpd_factor_entry [OF model_table_valid [OF m assms]] by blast
    then show ?thesis using gapped_tables c by blast
  qed
  have "\<forall>x\<in>set ?xs. x = 0 \<or> 1 / 10 \<le> x"
  proof
    fix x assume "x \<in> set ?xs"
    then obtain c where "c \<in> set input_tables" "x = lookup (cpd_factor c) \<sigma>" by auto
    then show "x = 0 \<or> 1 / 10 \<le> x" using g by simp
  qed
  then have "prod_list ?xs = 0 \<or> (1 / 10) ^ length ?xs \<le> prod_list ?xs"
    by (intro prod_list_gap) simp_all
  moreover have "length ?xs = 7" by (simp add: input_tables_def)
  ultimately have "prod_list ?xs = 0 \<or> (1 / 10) ^ 7 \<le> prod_list ?xs" by simp
  then show ?thesis by (simp add: input_joint_def joint_def power_one_over)
qed


lemma outcome_in_model: "outcome_variable \<in> set (net_variables model_network)"
  by (simp add: model_variables)

lemma joint_outcome_split:
  "joint (net_cpds model_network) (\<tau>(''probabilidad_sismo'' := k))
     = input_joint \<tau> * lookup (cpd_factor (cpd_probabilidad (zip_star probs_rows))) (\<tau>(''probabilidad_sismo'' := k))"
proof -
  have "input_joint (\<tau>(''probabilidad_sismo'' := k)) = input_joint \<tau>"
    unfolding input_joint_def
  proof (rule joint_cong, intro ballI)
    fix f x
    assume f: "f \<in> set (map cpd_factor input_tables)" and x: "x \<in> set (names (scope f))"
    from f obtain c where "c \<in> set input_tables" "f = cpd_factor c" by auto
    then have "x \<noteq> ''probabilidad_sismo''" using outcome_not_in_input_scopes x by blast
    then show "(\<tau>(''probabilidad_sismo'' := k)) x = \<tau> x" by simp
  qed
  then show ?thesis
    unfolding model_cpds_split joint_append input_joint_def by (simp add: joint_def)
qed

lemma peel_outcome:
  assumes v: "valid_on (net_variables model_network) \<tau>"
  shows "sum_list (map (\<lambda>k. joint (net_cpds model_network) (\<tau>(''probabilidad_sismo'' := k))) [0..<3])
       = input_joint \<tau>"
proof -
  let ?c = "cpd_probabilidad (zip_star probs_rows)"
  have cm: "?c \<in> set model_tables" by (simp add: model_tables_def)
  have vc: "variable ?c = ''probabilidad_sismo''" "variable_card ?c = 3"
    by (simp_all add: cpd_probabilidad_def)
  have one: "sum_list (map (\<lambda>k. lookup (cpd_factor ?c) (\<tau>(''probabilidad_sismo'' := k))) [0..<3]) = 1"
  proof -
    have "set (scope (cpd_factor ?c)) \<subseteq> set (net_variables model_network)"
      using cm scopes_registered by blast
    from cpd_factor_sums_to_one [OF model_table_valid(1,2) [OF cm v] distinct_model_names this v]
    show ?thesis by (simp only: vc)
  qed
  have "map (\<lambda>k. joint (net_cpds model_network) (\<tau>(''probabilidad_sismo'' := k))) [0..<3]
      = map (\<lambda>k. input_joint \<tau> * lookup (cpd_factor ?c) (\<tau>(''probabilidad_sismo'' := k))) [0..<3]"
    by (rule map_cong [OF refl]) (rule joint_outcome_split)
  then have "sum_list (map (\<lambda>k. joint (net_cpds model_network) (\<tau>(''probabilidad_sismo'' := k))) [0..<3])
      = input_joint \<tau> * sum_list (map (\<lambda>k. lookup (cpd_factor ?c) (\<tau>(''probabilidad_sismo'' := k))) [0..<3])"
    by (simp only: sum_list_const_mult)
  then show ?thesis by (simp only: one mult_1_right)
qed

lemma observed_valid:
  assumes "\<forall>e\<in>set ev. valid_entry (net_variables model_network) e"
    and "valid_on (net_variables model_network) \<sigma>"
  shows "valid_on (net_variables model_network) (observe (net_variables model_network) ev \<sigma>)"
proof -
  have "valid_on (filter (\<lambda>u. fst u \<notin> set (map fst ev)) (net_variables model_network)) \<sigma>"
    using assms(2) by (auto simp: valid_on_def)
  then show ?thesis
    using valid_on_observe [OF distinct_model_names subset_refl assms(1)] by blast
qed

lemma zero_valid: "valid_on (net_variables model_network) (\<lambda>x. 0)"
  using nonempty_model_domains by (rule valid_on_zero)

lemma outcome_not_input: "''probabilidad_sismo'' \<notin> set (names input_variables)"
  by (simp add: names_def input_variables_def)

lemma prior_inputs:
  assumes k: "''probabilidad_sismo'' \<notin> set (map fst ev)"
    and v: "\<forall>e\<in>set ev. valid_entry (net_variables model_network) e"
  shows "prior model_network ev
       = sum_over (filter (\<lambda>v. fst v \<notin> set (map fst ev)) input_variables) input_joint
           (observe (net_variables model_network) ev (\<lambda>x. 0))"
proof -
  let ?reg = "net_variables model_network"
  let ?U = "filter (\<lambda>v. fst v \<notin> set (map fst ev)) input_variables"
  let ?obs = "observe ?reg ev (\<lambda>x. 0)"
  have un: "unobserved model_network ev = ?U @ [outcome_variable]"
    using k by (simp add: unobserved_def model_variables outcome_variable_def)
  have vo: "valid_on ?reg ?obs" using v zero_valid by (rule observed_valid)
  have sub: "set ?U \<subseteq> set ?reg" by (auto simp: model_variables)
  have "prior model_network ev = sum_over (?U @ [outcome_variable]) (joint (net_cpds model_network)) ?obs"
    by (simp only: prior_def un)
  also have "\<dots> = sum_over ?U (\<lambda>\<tau>. sum_list (map (\<lambda>k. joint (net_cpds model_network)
        (\<tau>(''probabilidad_sismo'' := k))) [0..<3])) ?obs"
  proof -
    have f: "fst outcome_variable = ''probabilidad_sismo''" by (simp add: outcome_variable_def)
    have l: "length (snd outcome_variable) = 3" by (simp add: outcome_variable_def)
    show ?thesis by (simp only: sum_over_snoc f l)
  qed
  also have "\<dots> = sum_over ?U input_joint ?obs"
    by (rule sum_over_cong [OF distinct_model_names peel_outcome sub vo])
  finally show ?thesis .
qed

lemma prior_gap:
  assumes k: "''probabilidad_sismo'' \<notin> set (map fst ev)"
    and v: "\<forall>e\<in>set ev. valid_entry (net_variables model_network) e"
  shows "prior model_network ev = 0 \<or> 1 / 10 ^ 7 \<le> prior model_network ev"
proof -
  let ?U = "filter (\<lambda>v. fst v \<notin> set (map fst ev)) input_variables"
  have sub: "set ?U \<subseteq> set (net_variables model_network)" by (auto simp: model_variables)
  have vo: "valid_on (net_variables model_network) (observe (net_variables model_network) ev (\<lambda>x. 0))"
    using v zero_valid by (rule observed_valid)
  have "(0::rat) < 1 / 10 ^ 7" by simp
  from sum_over_gap [OF distinct_model_names this input_joint_gap sub vo]
  show ?thesis unfolding prior_inputs [OF k v] .
qed



lemma outcome_total:
  assumes k: "''probabilidad_sismo'' \<notin> set (map fst ev)"
  shows "sum_list (map (unnormalized model_network ''probabilidad_sismo'' ev) [0..<3])
       = prior model_network ev"
proof -
  have last: "net_variables model_network = input_variables @ [(''probabilidad_sismo'', [''baja'', ''media'', ''alta''])]"
    by (simp add: model_variables outcome_variable_def)
  have l3: "length [''baja'', ''media'', ''alta''] = 3" by simp
  from total_is_prior [OF distinct_model_names last k] show ?thesis by (simp only: l3)
qed

text \<open>A query on the outcome whose evidence is on other variables.\<close>

lemma query_outcome:
  assumes k: "''probabilidad_sismo'' \<notin> set (map fst ev)"
    and v: "\<forall>e\<in>set ev. valid_entry (net_variables model_network) e"
  shows "query model_network [''probabilidad_sismo''] ev =
     (if prior model_network ev = 0 then Inl ZeroProbabilityEvidence
      else Inr \<lparr>scope = [outcome_variable],
                vals = map (\<lambda>k. unnormalized model_network ''probabilidad_sismo'' ev k / prior model_network ev)
                         [0..<3]\<rparr>)"
proof -
  have q: "(''probabilidad_sismo'', [''baja'', ''media'', ''alta'']) \<in> set (net_variables model_network)"
    using outcome_in_model by (simp add: outcome_variable_def)
  have l3: "length [''baja'', ''media'', ''alta''] = 3" by simp
  have g: "prior model_network ev = 0 \<or> 1 / 10 ^ 7 \<le> prior model_network ev"
    using prior_gap [OF k v] .
  have c: "prior model_network ev \<le> 1 / 10 ^ 12 \<longleftrightarrow> prior model_network ev = 0"
  proof
    assume "prior model_network ev \<le> 1 / 10 ^ 12"
    moreover have "(1::rat) / 10 ^ 12 < 1 / 10 ^ 7" by simp
    ultimately show "prior model_network ev = 0" using g by linarith
  next
    assume "prior model_network ev = 0"
    then show "prior model_network ev \<le> 1 / 10 ^ 12" by simp
  qed
  show ?thesis
    using query_single [OF wf_model q k v]
    unfolding l3 outcome_total [OF k] c by (simp only: outcome_variable_def)
qed

section \<open>Full evidence\<close>

lemma position_nth: "s \<in> set ss \<Longrightarrow> position ss s < length ss \<and> ss ! position ss s = s"
proof -
  assume "s \<in> set ss"
  then obtain k where k: "index_of ss s = Some k"
    using index_of_None [of ss s] by (cases "index_of ss s") auto
  from index_of_less [OF k] show ?thesis by (simp add: position_def k)
qed

lemma positions:
  assumes a: "list_all2 (\<lambda>s ss. s \<in> set ss) comb sss"
  shows "length (map2 position sss comb) = length sss"
    and "\<forall>j<length sss. map2 position sss comb ! j < length (sss ! j)"
    and "map (\<lambda>(xs, i). xs ! i) (zip sss (map2 position sss comb)) = comb"
proof -
  have l: "length comb = length sss" using a by (rule list_all2_lengthD)
  have n: "comb ! j \<in> set (sss ! j)" if "j < length sss" for j
    using list_all2_nthD [OF a] that l by simp
  show "length (map2 position sss comb) = length sss" using l by simp
  show "\<forall>j<length sss. map2 position sss comb ! j < length (sss ! j)"
    using l n position_nth by simp
  show "map (\<lambda>(xs, i). xs ! i) (zip sss (map2 position sss comb)) = comb"
    using l n position_nth by (intro nth_equalityI) simp_all
qed

lemma column_of_nth:
  assumes a: "list_all2 (\<lambda>s ss. s \<in> set ss) comb sss"
  shows "column_of sss comb < prod_list (map length sss)"
    and "product_lists sss ! column_of sss comb = comb"
proof -
  let ?ds = "map2 position sss comb"
  have "length ?ds = length (map length sss)" using positions(1) [OF a] by simp
  moreover have "\<forall>j<length (map length sss). ?ds ! j < map length sss ! j"
    using positions(2) [OF a] by simp
  ultimately show "column_of sss comb < prod_list (map length sss)"
    unfolding column_of_def by (rule radix_less)
  show "product_lists sss ! column_of sss comb = comb"
    unfolding column_of_def
    using nth_product_lists [OF positions(1,2) [OF a]] positions(3) [OF a] by simp
qed

lemma full_assignment:
  assumes "m \<in> set magnitudes" "p \<in> set profundidades" "t \<in> set tiempos" "f \<in> set fallas"
    "pa \<in> set patrones" "i \<in> set intensidades" "fr \<in> set frecuencias"
  shows "list_all2 (\<lambda>s ss. s \<in> set ss) [m, p, t, f, pa, i, fr] state_lists"
  unfolding state_lists_def using assms by simp

lemma column_of_row:
  assumes "m \<in> set magnitudes" "p \<in> set profundidades" "t \<in> set tiempos" "f \<in> set fallas"
    "pa \<in> set patrones" "i \<in> set intensidades" "fr \<in> set frecuencias"
  shows "column_of state_lists [m, p, t, f, pa, i, fr] < 12288"
    and "calcular_probabilidades m p t f pa i fr
           = Inr (probs_rows ! column_of state_lists [m, p, t, f, pa, i, fr])"
proof -
  let ?comb = "[m, p, t, f, pa, i, fr]"
  let ?j = "column_of state_lists ?comb"
  have a: "list_all2 (\<lambda>s ss. s \<in> set ss) ?comb state_lists" using assms by (rule full_assignment)
  have "prod_list (map length state_lists) = 12288" by (simp only: lens) simp
  then show j: "?j < 12288" using column_of_nth(1) [OF a] by simp
  have "probs_rows ! ?j = projr (calcular_comb (product_lists state_lists ! ?j))"
    unfolding probs_rows_def using j by (simp only: nth_map n_combos)
  then have r: "probs_rows ! ?j = projr (calcular_probabilidades m p t f pa i fr)"
    by (simp only: column_of_nth(2) [OF a] calcular_comb.simps)
  obtain a b c where "calcular_probabilidades m p t f pa i fr = Inr [a / (a + b + c), b / (a + b + c), c / (a + b + c)]"
    using calcular_ok [OF assms] by blast
  then show "calcular_probabilidades m p t f pa i fr = Inr (probs_rows ! ?j)"
    using r by simp
qed

lemma evidencia_keys:
  "map fst (evidencia m p t f pa i fr) = names input_variables"
  by (simp add: evidencia_def names_def input_variables_def)

lemma evidencia_valid:
  assumes "m \<in> set magnitudes" "p \<in> set profundidades" "t \<in> set tiempos" "f \<in> set fallas"
    "pa \<in> set patrones" "i \<in> set intensidades" "fr \<in> set frecuencias"
  shows "\<forall>e\<in>set (evidencia m p t f pa i fr). valid_entry (net_variables model_network) e"
  using assms
  by (simp add: evidencia_def valid_entry_def model_variables input_variables_def outcome_variable_def)

lemma evidencia_outcome: "''probabilidad_sismo'' \<notin> set (map fst (evidencia m p t f pa i fr))"
  by (simp add: evidencia_def)

lemma observed_inputs:
  "observe (net_variables model_network) (evidencia m p t f pa i fr) \<tau> =
     \<tau>(''frecuencia_mensual'' := position frecuencias fr,
       ''intensidad_historica'' := position intensidades i,
       ''patron_sismico'' := position patrones pa,
       ''actividad_falla'' := position fallas f,
       ''tiempo_ultimo_sismo'' := position tiempos t,
       ''profundidad_sismica'' := position profundidades p,
       ''magnitud_historica'' := position magnitudes m)"
  by (simp add: evidencia_def state_index_def position_def model_variables input_variables_def
      outcome_variable_def)

lemma observed_states:
  fixes m p t f pa i fr \<tau>
  defines "\<omega> \<equiv> observe (net_variables model_network) (evidencia m p t f pa i fr) \<tau>"
  shows "\<omega> ''magnitud_historica'' = position magnitudes m"
    and "\<omega> ''profundidad_sismica'' = position profundidades p"
    and "\<omega> ''tiempo_ultimo_sismo'' = position tiempos t"
    and "\<omega> ''actividad_falla'' = position fallas f"
    and "\<omega> ''patron_sismico'' = position patrones pa"
    and "\<omega> ''intensidad_historica'' = position intensidades i"
    and "\<omega> ''frecuencia_mensual'' = position frecuencias fr"
    and "\<omega> ''probabilidad_sismo'' = \<tau> ''probabilidad_sismo''"
  unfolding \<omega>_def observed_inputs by simp_all

lemma lookup_inputs:
  assumes v: "valid_on (net_variables model_network) \<sigma>"
  shows "lookup (cpd_factor cpd_magnitud) \<sigma> = column cpd_magnitud 0 ! \<sigma> ''magnitud_historica''"
    and "lookup (cpd_factor cpd_profundidad) \<sigma> = column cpd_profundidad 0 ! \<sigma> ''profundidad_sismica''"
    and "lookup (cpd_factor cpd_tiempo) \<sigma> = column cpd_tiempo 0 ! \<sigma> ''tiempo_ultimo_sismo''"
    and "lookup (cpd_factor cpd_falla) \<sigma> = column cpd_falla 0 ! \<sigma> ''actividad_falla''"
    and "lookup (cpd_factor cpd_patron) \<sigma>
           = column cpd_patron (\<sigma> ''actividad_falla'') ! \<sigma> ''patron_sismico''"
    and "lookup (cpd_factor cpd_intensidad) \<sigma>
           = column cpd_intensidad (\<sigma> ''magnitud_historica'' * 4 + \<sigma> ''profundidad_sismica'')
               ! \<sigma> ''intensidad_historica''"
    and "lookup (cpd_factor cpd_frecuencia) \<sigma>
           = column cpd_frecuencia (\<sigma> ''actividad_falla'') ! \<sigma> ''frecuencia_mensual''"
proof -
  have l: "lookup (cpd_factor c) \<sigma> = column c (radix (evidence_card c) (map \<sigma> (evidence c))) ! \<sigma> (variable c)"
    if "c \<in> set model_tables" for c
    using lookup_cpd_factor [OF model_table_valid [OF that v]] by blast
  have a: "variable cpd_magnitud = ''magnitud_historica''" "evidence cpd_magnitud = []"
    by (simp_all add: cpd_magnitud_def)
  show "lookup (cpd_factor cpd_magnitud) \<sigma> = column cpd_magnitud 0 ! \<sigma> ''magnitud_historica''"
    using l [of cpd_magnitud] by (simp add: a model_tables_def)
  have b: "variable cpd_profundidad = ''profundidad_sismica''" "evidence cpd_profundidad = []"
    by (simp_all add: cpd_profundidad_def)
  show "lookup (cpd_factor cpd_profundidad) \<sigma> = column cpd_profundidad 0 ! \<sigma> ''profundidad_sismica''"
    using l [of cpd_profundidad] by (simp add: b model_tables_def)
  have c: "variable cpd_tiempo = ''tiempo_ultimo_sismo''" "evidence cpd_tiempo = []"
    by (simp_all add: cpd_tiempo_def)
  show "lookup (cpd_factor cpd_tiempo) \<sigma> = column cpd_tiempo 0 ! \<sigma> ''tiempo_ultimo_sismo''"
    using l [of cpd_tiempo] by (simp add: c model_tables_def)
  have d: "variable cpd_falla = ''actividad_falla''" "evidence cpd_falla = []"
    by (simp_all add: cpd_falla_def)
  show "lookup (cpd_factor cpd_falla) \<sigma> = column cpd_falla 0 ! \<sigma> ''actividad_falla''"
    using l [of cpd_falla] by (simp add: d model_tables_def)
  have e: "variable cpd_patron = ''patron_sismico''" "evidence cpd_patron = [''actividad_falla'']"
    "evidence_card cpd_patron = [3]"
    by (simp_all add: cpd_patron_def)
  show "lookup (cpd_factor cpd_patron) \<sigma>
           = column cpd_patron (\<sigma> ''actividad_falla'') ! \<sigma> ''patron_sismico''"
    using l [of cpd_patron] by (simp add: e model_tables_def)
  have g: "variable cpd_intensidad = ''intensidad_historica''"
    "evidence cpd_intensidad = [''magnitud_historica'', ''profundidad_sismica'']"
    "evidence_card cpd_intensidad = [4, 4]"
    by (simp_all add: cpd_intensidad_def)
  show "lookup (cpd_factor cpd_intensidad) \<sigma>
           = column cpd_intensidad (\<sigma> ''magnitud_historica'' * 4 + \<sigma> ''profundidad_sismica'')
               ! \<sigma> ''intensidad_historica''"
    using l [of cpd_intensidad] by (simp add: g model_tables_def)
  have h: "variable cpd_frecuencia = ''frecuencia_mensual''" "evidence cpd_frecuencia = [''actividad_falla'']"
    "evidence_card cpd_frecuencia = [3]"
    by (simp_all add: cpd_frecuencia_def)
  show "lookup (cpd_factor cpd_frecuencia) \<sigma>
           = column cpd_frecuencia (\<sigma> ''actividad_falla'') ! \<sigma> ''frecuencia_mensual''"
    using l [of cpd_frecuencia] by (simp add: h model_tables_def)
qed

lemma input_joint_entries:
  assumes v: "valid_on (net_variables model_network) \<sigma>"
  shows "input_joint \<sigma> =
      column cpd_magnitud 0 ! \<sigma> ''magnitud_historica''
    * column cpd_profundidad 0 ! \<sigma> ''profundidad_sismica''
    * column cpd_tiempo 0 ! \<sigma> ''tiempo_ultimo_sismo''
    * column cpd_falla 0 ! \<sigma> ''actividad_falla''
    * column cpd_patron (\<sigma> ''actividad_falla'') ! \<sigma> ''patron_sismico''
    * column cpd_intensidad (\<sigma> ''magnitud_historica'' * 4 + \<sigma> ''profundidad_sismica'')
               ! \<sigma> ''intensidad_historica''
    * column cpd_frecuencia (\<sigma> ''actividad_falla'') ! \<sigma> ''frecuencia_mensual''"
  unfolding input_joint_def joint_def input_tables_def
  by (simp only: list.map prod_list.Cons prod_list.Nil lookup_inputs [OF v] mult_1_right mult.assoc)

lemma lookup_outcome:
  assumes v: "valid_on (net_variables model_network) \<sigma>"
  shows "lookup (cpd_factor (cpd_probabilidad (zip_star probs_rows))) \<sigma>
       = probs_rows ! radix [4, 4, 4, 3, 4, 4, 4]
           [\<sigma> ''magnitud_historica'', \<sigma> ''profundidad_sismica'', \<sigma> ''tiempo_ultimo_sismo'',
            \<sigma> ''actividad_falla'', \<sigma> ''patron_sismico'', \<sigma> ''intensidad_historica'',
            \<sigma> ''frecuencia_mensual'']
           ! \<sigma> ''probabilidad_sismo''"
proof -
  let ?c = "cpd_probabilidad (zip_star probs_rows)"
  have m: "?c \<in> set model_tables" by (simp add: model_tables_def)
  have a: "variable ?c = ''probabilidad_sismo''"
    "evidence ?c = [''magnitud_historica'', ''profundidad_sismica'', ''tiempo_ultimo_sismo'',
        ''actividad_falla'', ''patron_sismico'', ''intensidad_historica'', ''frecuencia_mensual'']"
    "evidence_card ?c = [4, 4, 4, 3, 4, 4, 4]"
    by (simp_all add: cpd_probabilidad_def)
  have n: "n_columns ?c = 12288" by (simp add: n_columns_def a)
  from lookup_cpd_factor [OF model_table_valid [OF m v]]
  have l: "lookup (cpd_factor ?c) \<sigma> = column ?c (radix (evidence_card ?c) (map \<sigma> (evidence ?c))) ! \<sigma> (variable ?c)"
    and j: "radix (evidence_card ?c) (map \<sigma> (evidence ?c)) < n_columns ?c"
    by blast+
  from j have "radix (evidence_card ?c) (map \<sigma> (evidence ?c)) < 12288" by (simp only: n)
  from column_probabilidad [OF this] l show ?thesis by (simp only: a list.map)
qed

lemma outcome_state_valid:
  assumes "k < 3"
  shows "valid_on (net_variables model_network) ((\<lambda>x. 0)(''probabilidad_sismo'' := k))"
proof -
  have "valid_on (net_variables model_network) ((\<lambda>x. 0)(fst outcome_variable := k))"
    using assms by (intro valid_on_update [OF distinct_model_names zero_valid outcome_in_model])
      (simp add: outcome_variable_def)
  then show ?thesis by (simp add: outcome_variable_def)
qed

lemma column_of_inputs:
  "column_of state_lists [m, p, t, f, pa, i, fr]
     = radix [4, 4, 4, 3, 4, 4, 4]
         [position magnitudes m, position profundidades p, position tiempos t, position fallas f,
          position patrones pa, position intensidades i, position frecuencias fr]"
  unfolding column_of_def lens by (simp add: state_lists_def)

text \<open>The prior of a full evidence mapping is the product of the seven input entries.\<close>

lemma prior_full_evidence:
  assumes "m \<in> set magnitudes" "p \<in> set profundidades" "t \<in> set tiempos" "f \<in> set fallas"
    "pa \<in> set patrones" "i \<in> set intensidades" "fr \<in> set frecuencias"
  shows "prior model_network (evidencia m p t f pa i fr) =
      column cpd_magnitud 0 ! position magnitudes m
    * column cpd_profundidad 0 ! position profundidades p
    * column cpd_tiempo 0 ! position tiempos t
    * column cpd_falla 0 ! position fallas f
    * column cpd_patron (position fallas f) ! position patrones pa
    * column cpd_intensidad (position magnitudes m * 4 + position profundidades p)
               ! position intensidades i
    * column cpd_frecuencia (position fallas f) ! position frecuencias fr"
proof -
  let ?ev = "evidencia m p t f pa i fr"
  let ?obs = "observe (net_variables model_network) ?ev (\<lambda>x. 0)"
  have v: "\<forall>e\<in>set ?ev. valid_entry (net_variables model_network) e"
    using assms by (rule evidencia_valid)
  have vo: "valid_on (net_variables model_network) ?obs" using v zero_valid by (rule observed_valid)
  have e: "filter (\<lambda>v. fst v \<notin> set (map fst ?ev)) input_variables = []"
    by (simp add: evidencia_def input_variables_def)
  have "prior model_network ?ev = input_joint ?obs"
    by (simp only: prior_inputs [OF evidencia_outcome v] e sum_over.simps)
  then show ?thesis by (simp only: input_joint_entries [OF vo] observed_states)
qed

text \<open>What a query on the outcome computes for a state, all seven inputs observed.\<close>

lemma unnormalized_full_evidence:
  assumes a: "m \<in> set magnitudes" "p \<in> set profundidades" "t \<in> set tiempos" "f \<in> set fallas"
    "pa \<in> set patrones" "i \<in> set intensidades" "fr \<in> set frecuencias"
    and k: "k < 3"
  shows "unnormalized model_network ''probabilidad_sismo'' (evidencia m p t f pa i fr) k
       = prior model_network (evidencia m p t f pa i fr)
         * probs_rows ! column_of state_lists [m, p, t, f, pa, i, fr] ! k"
proof -
  let ?ev = "evidencia m p t f pa i fr"
  let ?reg = "net_variables model_network"
  let ?w = "observe ?reg ?ev ((\<lambda>x. 0)(''probabilidad_sismo'' := k))"
  have v: "\<forall>e\<in>set ?ev. valid_entry ?reg e" using a by (rule evidencia_valid)
  have vw: "valid_on ?reg ?w" using v outcome_state_valid [OF k] by (rule observed_valid)
  have el: "eliminable model_network ''probabilidad_sismo'' ?ev = []"
    by (simp add: eliminable_def model_variables input_variables_def outcome_variable_def
        evidencia_def)
  have u: "unnormalized model_network ''probabilidad_sismo'' ?ev k = joint (net_cpds model_network) ?w"
    by (simp only: unnormalized_def el rev.simps sum_over.simps)
  have wk: "?w ''probabilidad_sismo'' = k" by (simp only: observed_states) simp
  then have "?w(''probabilidad_sismo'' := k) = ?w" by (simp only: fun_upd_idem_iff)
  with joint_outcome_split [of ?w k]
  have j: "joint (net_cpds model_network) ?w
      = input_joint ?w * lookup (cpd_factor (cpd_probabilidad (zip_star probs_rows))) ?w"
    by simp
  have i: "input_joint ?w = prior model_network ?ev"
    by (simp only: input_joint_entries [OF vw] observed_states prior_full_evidence [OF a])
  have l: "lookup (cpd_factor (cpd_probabilidad (zip_star probs_rows))) ?w
      = probs_rows ! column_of state_lists [m, p, t, f, pa, i, fr] ! k"
    by (simp only: lookup_outcome [OF vw] observed_states(1-7) wk column_of_inputs)
  show ?thesis by (simp only: u j i l)
qed

lemma query_full_evidence:
  assumes a: "m \<in> set magnitudes" "p \<in> set profundidades" "t \<in> set tiempos" "f \<in> set fallas"
    "pa \<in> set patrones" "i \<in> set intensidades" "fr \<in> set frecuencias"
  shows "query model_network [''probabilidad_sismo''] (evidencia m p t f pa i fr) =
     (if prior model_network (evidencia m p t f pa i fr) = 0 then Inl ZeroProbabilityEvidence
      else Inr \<lparr>scope = [outcome_variable],
                vals = probs_rows ! column_of state_lists [m, p, t, f, pa, i, fr]\<rparr>)"
proof -
  let ?ev = "evidencia m p t f pa i fr"
  let ?row = "probs_rows ! column_of state_lists [m, p, t, f, pa, i, fr]"
  let ?P = "prior model_network ?ev"
  have v: "\<forall>e\<in>set ?ev. valid_entry (net_variables model_network) e" using a by (rule evidencia_valid)
  obtain x y z where row: "?row = [x, y, z]"
    using probs_rows_nth [OF column_of_row(1) [OF a]] by blast
  have "map (\<lambda>k. unnormalized model_network ''probabilidad_sismo'' ?ev k / ?P) [0..<3] = ?row"
    if nz: "?P \<noteq> 0"
  proof -
    have "map (\<lambda>k. unnormalized model_network ''probabilidad_sismo'' ?ev k / ?P) [0..<3]
        = map (\<lambda>k. ?row ! k) [0..<3]"
    proof (rule map_cong [OF refl])
      fix k assume "k \<in> set [0..<3]"
      then have "k < 3" by simp
      from unnormalized_full_evidence [OF a this] nz
      show "unnormalized model_network ''probabilidad_sismo'' ?ev k / ?P = ?row ! k" by simp
    qed
    also have "\<dots> = ?row"
    proof -
      have "[0..<3] = [0, 1, 2]" by (simp add: upt_conv_Cons)
      then show ?thesis unfolding row by simp
    qed
    finally show ?thesis .
  qed
  then show ?thesis
    using query_outcome [OF evidencia_outcome v] by simp
qed

section \<open>The example evidence of the module\<close>

lemma high_activity_states:
  "''alta'' \<in> set magnitudes" "''superficial'' \<in> set profundidades" "''lejano'' \<in> set tiempos"
  "''alta'' \<in> set fallas" "''frecuente'' \<in> set patrones" "''alta'' \<in> set intensidades"
  "''alta'' \<in> set frecuencias"
  by (simp_all add: magnitudes_def profundidades_def tiempos_def fallas_def patrones_def
      intensidades_def frecuencias_def)

lemma low_activity_states:
  "''alta'' \<in> set magnitudes" "''superficial'' \<in> set profundidades" "''lejano'' \<in> set tiempos"
  "''baja'' \<in> set fallas" "''frecuente'' \<in> set patrones" "''alta'' \<in> set intensidades"
  "''alta'' \<in> set frecuencias"
  by (simp_all add: magnitudes_def profundidades_def tiempos_def fallas_def patrones_def
      intensidades_def frecuencias_def)


lemma calcular_high_activity:
  "calcular_probabilidades ''alta'' ''superficial'' ''lejano'' ''alta'' ''frecuente'' ''alta'' ''alta''
     = Inr [0, 1 / 4, 3 / 4]"
  by code_simp

lemma calcular_low_activity:
  "calcular_probabilidades ''alta'' ''superficial'' ''lejano'' ''baja'' ''frecuente'' ''alta'' ''alta''
     = Inr [1 / 20, 3 / 10, 13 / 20]"
  by code_simp


lemma prior_high_activity:
  "prior model_network
     (evidencia ''alta'' ''superficial'' ''lejano'' ''alta'' ''frecuente'' ''alta'' ''alta'') = 63 / 312500"
  unfolding prior_full_evidence [OF high_activity_states]
  by (simp add: esporadico_def position_def column_def magnitudes_def profundidades_def tiempos_def fallas_def
      patrones_def intensidades_def frecuencias_def cpd_magnitud_def cpd_profundidad_def
      cpd_tiempo_def cpd_falla_def cpd_patron_def cpd_intensidad_def cpd_frecuencia_def)

lemma prior_low_activity:
  "prior model_network
     (evidencia ''alta'' ''superficial'' ''lejano'' ''baja'' ''frecuente'' ''alta'' ''alta'') = 21 / 2500000"
  unfolding prior_full_evidence [OF low_activity_states]
  by (simp add: esporadico_def position_def column_def magnitudes_def profundidades_def tiempos_def fallas_def
      patrones_def intensidades_def frecuencias_def cpd_magnitud_def cpd_profundidad_def
      cpd_tiempo_def cpd_falla_def cpd_patron_def cpd_intensidad_def cpd_frecuencia_def)


section \<open>Evidence of positive prior\<close>







section \<open>Queries on the outcome variable\<close>






text \<open>
  C4. With the other six variables observed as in the example of the module, the query
  result for \<open>probabilidad_sismo\<close> has a strictly greater \<open>alta\<close> component when
  \<open>actividad_falla\<close> is \<open>alta\<close> than when it is \<open>baja\<close>, and both result vectors sum to 1.
\<close>

theorem fault_activity_monotone:
  "\<exists>hi lo.
     model = Inr model_network \<and>
     query model_network [''probabilidad_sismo'']
       (evidencia ''alta'' ''superficial'' ''lejano'' ''alta'' ''frecuente'' ''alta'' ''alta'') = Inr hi \<and>
     query model_network [''probabilidad_sismo'']
       (evidencia ''alta'' ''superficial'' ''lejano'' ''baja'' ''frecuente'' ''alta'' ''alta'') = Inr lo \<and>
     scope hi = [(''probabilidad_sismo'', [''baja'', ''media'', ''alta''])] \<and>
     scope lo = [(''probabilidad_sismo'', [''baja'', ''media'', ''alta''])] \<and>
     vals hi = [0, 1 / 4, 3 / 4] \<and> vals lo = [1 / 20, 3 / 10, 13 / 20] \<and>
     vals lo ! 2 < vals hi ! 2 \<and> sum_list (vals hi) = 1 \<and> sum_list (vals lo) = 1"
proof -
  let ?sc = "[(''probabilidad_sismo'', [''baja'', ''media'', ''alta''])]"
  have rh: "probs_rows ! column_of state_lists
      [''alta'', ''superficial'', ''lejano'', ''alta'', ''frecuente'', ''alta'', ''alta''] = [0, 1 / 4, 3 / 4]"
    using column_of_row(2) [OF high_activity_states] by (simp only: calcular_high_activity sum.inject)
  have rl: "probs_rows ! column_of state_lists
      [''alta'', ''superficial'', ''lejano'', ''baja'', ''frecuente'', ''alta'', ''alta''] = [1 / 20, 3 / 10, 13 / 20]"
    using column_of_row(2) [OF low_activity_states] by (simp only: calcular_low_activity sum.inject)
  have h: "query model_network [''probabilidad_sismo'']
       (evidencia ''alta'' ''superficial'' ''lejano'' ''alta'' ''frecuente'' ''alta'' ''alta'')
       = Inr \<lparr>scope = ?sc, vals = [0, 1 / 4, 3 / 4]\<rparr>"
    using query_full_evidence [OF high_activity_states]
    by (simp add: prior_high_activity rh outcome_variable_def)
  have l: "query model_network [''probabilidad_sismo'']
       (evidencia ''alta'' ''superficial'' ''lejano'' ''baja'' ''frecuente'' ''alta'' ''alta'')
       = Inr \<lparr>scope = ?sc, vals = [1 / 20, 3 / 10, 13 / 20]\<rparr>"
    using query_full_evidence [OF low_activity_states]
    by (simp add: prior_low_activity rl outcome_variable_def)
  show ?thesis
    by (intro exI [of _ "\<lparr>scope = ?sc, vals = [0, 1 / 4, 3 / 4]\<rparr>"]
              exI [of _ "\<lparr>scope = ?sc, vals = [1 / 20, 3 / 10, 13 / 20]\<rparr>"])
       (simp add: h l model_is_network)
qed




end
